theory Spec2Isabelle
  imports Main
begin

section \<open>JavaScript strings\<close>

text \<open>
  A JavaScript string is a sequence of UTF-16 code units and \<open>length\<close> counts them.
  The model takes the strings whose code units are below 256, one \<^typ>\<open>char\<close> each
  (\<^term>\<open>of_char c\<close> is the code unit). On these, \<open>String.prototype.trim\<close> removes the
  white space and line terminators TAB, LF, VT, FF, CR, SP and NBSP from both ends, and
  \<open>String.prototype.toLowerCase\<close> maps \<open>A\<close>-\<open>Z\<close> and the accented capitals
  U+00C0-U+00DE (the multiplication sign U+00D7 apart) to the code unit 32 above.
\<close>

definition code_unit :: "char \<Rightarrow> nat" where
  "code_unit c = of_char c"

definition isWhiteSpace :: "char \<Rightarrow> bool" where
  "isWhiteSpace c = (code_unit c \<in> {9, 10, 11, 12, 13, 32, 160})"

definition isLineTerminator :: "char \<Rightarrow> bool" where
  "isLineTerminator c = (code_unit c \<in> {10, 13})"

definition trimStart :: "string \<Rightarrow> string" where
  "trimStart s = dropWhile isWhiteSpace s"

definition trimEnd :: "string \<Rightarrow> string" where
  "trimEnd s = rev (dropWhile isWhiteSpace (rev s))"

definition trim :: "string \<Rightarrow> string" where
  "trim s = trimEnd (trimStart s)"

definition isUpper :: "char \<Rightarrow> bool" where
  "isUpper c = (let n = code_unit c in (65 \<le> n \<and> n \<le> 90) \<or> (192 \<le> n \<and> n \<le> 222 \<and> n \<noteq> 215))"

definition toLowerChar :: "char \<Rightarrow> char" where
  "toLowerChar c = (if isUpper c then char_of (code_unit c + 32) else c)"

definition toLowerCase :: "string \<Rightarrow> string" where
  "toLowerCase s = map toLowerChar s"

text \<open>
  Truthiness of an optional string (\<open>string | undefined\<close>): \<open>undefined\<close> and the empty
  string are falsy, every other string is truthy. \<open>a || b\<close> is \<open>a\<close> when \<open>a\<close> is truthy
  and \<open>b\<close> otherwise.
\<close>

fun truthy :: "string option \<Rightarrow> bool" where
  "truthy None = False"
| "truthy (Some s) = (s \<noteq> [])"

definition js_or :: "string option \<Rightarrow> string option \<Rightarrow> string option" where
  "js_or a b = (if truthy a then a else b)"

section \<open>The validation schema\<close>

text \<open>
  \<open>SignupSchema\<close> is a zod object of three string checks. \<open>z.string().min(n, msg)\<close>
  raises an issue with message \<open>msg\<close> when the value has fewer than \<open>n\<close> code units.
  \<open>z.string().email(msg)\<close> raises an issue when the value does not match the library's
  email pattern, which since zod 3.22 is
  \<^verbatim>\<open>/^(?!\.)(?!.*\.\.)([A-Z0-9_'+\-\.]*)[A-Z0-9_+-]@([A-Z0-9][A-Z0-9\-]*\.)+[A-Z]{2,}$/i\<close>
  (earlier versions use other patterns; all of them are anchored at both ends and admit
  no white space outside a quoted local part).
\<close>

definition isAlpha :: "char \<Rightarrow> bool" where
  "isAlpha c = (let n = code_unit c in (65 \<le> n \<and> n \<le> 90) \<or> (97 \<le> n \<and> n \<le> 122))"

definition isDigit :: "char \<Rightarrow> bool" where
  "isDigit c = (let n = code_unit c in 48 \<le> n \<and> n \<le> 57)"

definition isAlnum :: "char \<Rightarrow> bool" where
  "isAlnum c = (isAlpha c \<or> isDigit c)"

text \<open>The class \<^verbatim>\<open>[A-Z0-9_+-]\<close> that ends the local part.\<close>

definition local_last_char :: "char \<Rightarrow> bool" where
  "local_last_char c = (isAlnum c \<or> c = CHR ''_'' \<or> c = CHR ''+'' \<or> c = CHR ''-'')"

text \<open>The class \<^verbatim>\<open>[A-Z0-9_'+\-\.]\<close> of the local part.\<close>

definition local_char :: "char \<Rightarrow> bool" where
  "local_char c = (local_last_char c \<or> c = CHR 0x27 \<or> c = CHR ''.'')"

text \<open>The class \<^verbatim>\<open>[A-Z0-9\-]\<close> inside a domain label.\<close>

definition label_char :: "char \<Rightarrow> bool" where
  "label_char c = (isAlnum c \<or> c = CHR ''-'')"

text \<open>\<^verbatim>\<open>([A-Z0-9_'+\-\.]*)[A-Z0-9_+-]\<close>\<close>

fun local_ok :: "string \<Rightarrow> bool" where
  "local_ok [] = False"
| "local_ok [c] = local_last_char c"
| "local_ok (c # cs) = (local_char c \<and> local_ok cs)"

text \<open>\<^verbatim>\<open>[A-Z0-9][A-Z0-9\-]*\<close>\<close>

fun label_ok :: "string \<Rightarrow> bool" where
  "label_ok [] = False"
| "label_ok (c # cs) = (isAlnum c \<and> list_all label_char cs)"

text \<open>\<^verbatim>\<open>[A-Z]{2,}\<close>\<close>

definition tld_ok :: "string \<Rightarrow> bool" where
  "tld_ok s = (2 \<le> length s \<and> list_all isAlpha s)"

text \<open>The pieces of a string between the occurrences of a separator.\<close>

fun splitOn :: "char \<Rightarrow> string \<Rightarrow> string list" where
  "splitOn c [] = [[]]"
| "splitOn c (x # xs) =
     (if x = c then [] # splitOn c xs
      else (case splitOn c xs of [] \<Rightarrow> [[x]] | p # ps \<Rightarrow> (x # p) # ps))"

text \<open>
  \<^verbatim>\<open>([A-Z0-9][A-Z0-9\-]*\.)+[A-Z]{2,}\<close>: no class of the domain holds the dot, so the
  labels and the top-level name are the pieces between the dots: at least one label,
  then the top-level name.
\<close>

definition domain_ok :: "string \<Rightarrow> bool" where
  "domain_ok s =
     (case rev (splitOn CHR ''.'' s) of
        [] \<Rightarrow> False
      | tld # labels \<Rightarrow> labels \<noteq> [] \<and> list_all label_ok labels \<and> tld_ok tld)"

text \<open>\<^verbatim>\<open>(?!\.)\<close>: the string does not start with a dot.\<close>

fun starts_with_dot :: "string \<Rightarrow> bool" where
  "starts_with_dot [] = False"
| "starts_with_dot (c # cs) = (c = CHR ''.'')"

text \<open>
  \<^verbatim>\<open>.*\.\.\<close> matched at the start of the string: two dots in a row, after characters
  none of which is a line terminator.
\<close>

fun dotdot_ahead :: "string \<Rightarrow> bool" where
  "dotdot_ahead (a # b # t) =
     ((a = CHR ''.'' \<and> b = CHR ''.'') \<or> (\<not> isLineTerminator a \<and> dotdot_ahead (b # t)))"
| "dotdot_ahead _ = False"

text \<open>
  The whole pattern. Neither the local part nor the domain admits \<open>@\<close>, so the \<open>@\<close> of
  the pattern is the first one of the string.
\<close>

definition zod_email :: "string \<Rightarrow> bool" where
  "zod_email s =
     (let local = takeWhile (\<lambda>c. c \<noteq> CHR ''@'') s;
          rest = dropWhile (\<lambda>c. c \<noteq> CHR ''@'') s
      in \<not> starts_with_dot s \<and> \<not> dotdot_ahead s \<and>
         (case rest of [] \<Rightarrow> False | at # domain \<Rightarrow> local_ok local \<and> domain_ok domain))"

datatype field = Name | Email | Password

record SignupForm =
  name :: string
  email :: string
  password :: string

text \<open>An issue of the parse: the field it is about and its message.\<close>

type_synonym issue = "field \<times> string"

definition string_min :: "nat \<Rightarrow> string \<Rightarrow> field \<Rightarrow> string \<Rightarrow> issue list" where
  "string_min n msg f v = (if length v < n then [(f, msg)] else [])"

definition string_email :: "string \<Rightarrow> field \<Rightarrow> string \<Rightarrow> issue list" where
  "string_email msg f v = (if zod_email v then [] else [(f, msg)])"

definition SignupSchema :: "SignupForm \<Rightarrow> issue list" where
  "SignupSchema d =
     string_min 2 ''Name must be at least 2 characters'' Name (name d) @
     string_email ''Enter a valid email address'' Email (email d) @
     string_min 6 ''Password must be at least 6 characters'' Password (password d)"

text \<open>
  \<open>zodResolver\<close> turns the issues into the \<open>errors\<close> object of the form, keyed by
  field; a field with no issue has no entry.
\<close>

definition zodResolver :: "SignupForm \<Rightarrow> (field \<rightharpoonup> string)" where
  "zodResolver d = map_of (SignupSchema d)"

section \<open>The page component\<close>

subsection \<open>Thrown values and the error message\<close>

text \<open>
  The value caught in \<open>onSubmit\<close> is read through the interface \<open>ApiError\<close>
  (\<open>response?.data?.message\<close>, \<open>response?.data?.error\<close>) and as an \<open>Error\<close>
  (\<open>message\<close>). Every property may be missing; the thrown value itself may be \<open>null\<close> or
  \<open>undefined\<close>, which the optional chaining of the source covers.
\<close>

record ApiErrorData =
  message :: "string option"
  error :: "string option"

record ApiErrorResponse =
  data :: "ApiErrorData option"

record ErrorObject =
  response :: "ApiErrorResponse option"
  error_message :: "string option"

datatype thrown = Nullish | Object ErrorObject

text \<open>\<open>err?.response\<close> and \<open>err?.message\<close>.\<close>

fun err_response :: "thrown \<Rightarrow> ApiErrorResponse option" where
  "err_response Nullish = None"
| "err_response (Object e) = response e"

fun err_message :: "thrown \<Rightarrow> string option" where
  "err_message Nullish = None"
| "err_message (Object e) = error_message e"

text \<open>\<open>err?.response?.data?.message\<close> and \<open>err?.response?.data?.error\<close>.\<close>

definition response_data_message :: "thrown \<Rightarrow> string option" where
  "response_data_message err = Option.bind (Option.bind (err_response err) data) message"

definition response_data_error :: "thrown \<Rightarrow> string option" where
  "response_data_error err = Option.bind (Option.bind (err_response err) data) error"

text \<open>
  Lines 84-88. \<open>||\<close> associates to the left, and the last operand of the chain is a
  string literal, so the chain yields a string.
\<close>

definition or_literal :: "string option \<Rightarrow> string \<Rightarrow> string" where
  "or_literal a d = (case a of None \<Rightarrow> d | Some s \<Rightarrow> if s \<noteq> [] then s else d)"

definition errorMessage :: "thrown \<Rightarrow> string" where
  "errorMessage err =
     or_literal
       (js_or (js_or (response_data_message err) (response_data_error err)) (err_message err))
       ''Signup failed.''"

subsection \<open>State, effects and events\<close>

datatype toast_kind = Success | Failure

text \<open>
  What the component does to its surroundings: the request \<open>api.post(url, payload)\<close>,
  a toast (\<open>toast.success\<close> or \<open>toast.error\<close>, with its message and duration), and
  \<open>navigate(route)\<close>.
\<close>

datatype effect =
    Post string SignupForm
  | Toast toast_kind string nat
  | Navigate string

text \<open>
  The state of one mount of the page. \<open>loading\<close> is the \<open>useState\<close> flag and \<open>errors\<close>
  the \<open>formState.errors\<close> of the form. \<open>submit_disabled\<close> is the \<open>disabled\<close> attribute of the
  submit button as the last render left it. \<open>inflight\<close> holds the payloads of the calls of
  \<open>api.post\<close> whose promise has not settled: each is an \<open>onSubmit\<close> suspended at its
  \<open>await\<close>. \<open>timers\<close> holds the pending \<open>setTimeout\<close> callbacks, each with the time it is
  due and the route it navigates to. \<open>clock\<close> is the time in milliseconds, \<open>trace\<close> the
  effects so far, each with its time, the latest last, and \<open>uncaught\<close> the values that
  left \<open>onSubmit\<close> as a rejection.
\<close>

record State =
  mounted :: bool
  loading :: bool
  submit_disabled :: bool
  errors :: "issue list"
  inflight :: "SignupForm list"
  timers :: "(nat \<times> string) list"
  clock :: nat
  trace :: "(nat \<times> effect) list"
  uncaught :: "thrown list"

definition init :: State where
  "init = \<lparr>mounted = True, loading = False, submit_disabled = False, errors = [],
           inflight = [], timers = [], clock = 0, trace = [], uncaught = []\<rparr>"

text \<open>
  A state setter of React changes the state of a mounted component; on an unmounted one
  the update is dropped. The new state shows on the page at the next render.
\<close>

definition setLoading :: "bool \<Rightarrow> State \<Rightarrow> State" where
  "setLoading b s = (if mounted s then s\<lparr>loading := b\<rparr> else s)"

definition emit :: "effect \<Rightarrow> State \<Rightarrow> State" where
  "emit e s = s\<lparr>trace := trace s @ [(clock s, e)]\<rparr>"

text \<open>\<open>setTimeout(() => navigate(route), delay)\<close>\<close>

definition setTimeout :: "string \<Rightarrow> nat \<Rightarrow> State \<Rightarrow> State" where
  "setTimeout route delay s = s\<lparr>timers := timers s @ [(clock s + delay, route)]\<rparr>"

text \<open>
  Modelled from the spec: the module \<open>api\<close> is imported from \<open>../api\<close> and is not among
  the sources. The specification gives it as the request channel to the external signup
  service (\<open>POST /auth/signup\<close> with the payload as body), which answers later with
  success or with failure. So \<open>api.post\<close> sends the request and returns a pending
  promise; a failure of the call is a rejection of that promise.
\<close>

definition api_post :: "string \<Rightarrow> SignupForm \<Rightarrow> State \<Rightarrow> State" where
  "api_post url payload s = (emit (Post url payload) s)\<lparr>inflight := inflight s @ [payload]\<rparr>"

text \<open>
  How the promise of \<open>api.post\<close> settles, and whether a call of the toast library
  returns or throws.
\<close>

datatype settlement = Fulfilled | Rejected thrown

record faults =
  toast_success_throws :: "thrown option"
  toast_error_throws :: "thrown option"

definition no_faults :: faults where
  "no_faults = \<lparr>toast_success_throws = None, toast_error_throws = None\<rparr>"

datatype completion = Normal | Abrupt thrown

subsection \<open>onSubmit\<close>

text \<open>Lines 61-65: the payload.\<close>

definition payload_of :: "SignupForm \<Rightarrow> SignupForm" where
  "payload_of d =
     \<lparr>name = trim (name d), email = toLowerCase (trim (email d)), password = password d\<rparr>"

text \<open>Lines 59-67, up to the \<open>await\<close>.\<close>

definition onSubmit :: "SignupForm \<Rightarrow> State \<Rightarrow> State" where
  "onSubmit d s = api_post ''/auth/signup'' (payload_of d) (setLoading True s)"

text \<open>Lines 67-73: the rest of the \<open>try\<close> block, once the promise has settled.\<close>

definition try_block :: "faults \<Rightarrow> settlement \<Rightarrow> State \<Rightarrow> State \<times> completion" where
  "try_block f r s =
     (case r of
        Rejected err \<Rightarrow> (s, Abrupt err)
      | Fulfilled \<Rightarrow>
          (case toast_success_throws f of
             Some err \<Rightarrow> (s, Abrupt err)
           | None \<Rightarrow>
               (setTimeout ''/dashboard'' 900
                  (emit (Toast Success ''Signup successful! Redirecting to dashboard...'' 1800) s),
                Normal)))"

text \<open>Lines 74-93.\<close>

definition catch_block :: "faults \<Rightarrow> thrown \<Rightarrow> State \<Rightarrow> State \<times> completion" where
  "catch_block f err s =
     (case toast_error_throws f of
        Some err' \<Rightarrow> (s, Abrupt err')
      | None \<Rightarrow> (emit (Toast Failure (errorMessage err) 2200) s, Normal))"

text \<open>Lines 94-96.\<close>

definition finally_block :: "State \<Rightarrow> State" where
  "finally_block s = setLoading False s"

text \<open>
  The continuation of \<open>onSubmit\<close> after the \<open>await\<close>: the \<open>catch\<close> block runs when the
  \<open>try\<close> block ends abruptly, the \<open>finally\<close> block runs in every case, and the
  completion of the whole is that of the last block but \<open>finally\<close>.
\<close>

definition onSubmit_resume :: "faults \<Rightarrow> settlement \<Rightarrow> State \<Rightarrow> State \<times> completion" where
  "onSubmit_resume f r s =
     (let (s1, c1) = try_block f r s;
          (s2, c2) = (case c1 of Normal \<Rightarrow> (s1, Normal) | Abrupt err \<Rightarrow> catch_block f err s1)
      in (finally_block s2, c2))"

subsection \<open>The form\<close>

text \<open>
  \<open>handleSubmit(onSubmit)\<close> of the form library runs the resolver on the field values;
  it stores the issues and stops when there are any, and calls \<open>onSubmit\<close> with the
  values otherwise.
\<close>

definition handleSubmit :: "SignupForm \<Rightarrow> State \<Rightarrow> State" where
  "handleSubmit d s =
     (let issues = SignupSchema d
      in if issues = [] then onSubmit d (s\<lparr>errors := []\<rparr>) else s\<lparr>errors := issues\<rparr>)"

text \<open>
  Line 241, \<open>disabled={loading}\<close>: a render of the mounted page sets the \<open>disabled\<close>
  attribute of the submit button to the \<open>loading\<close> of that moment.
\<close>

definition render :: "State \<Rightarrow> State" where
  "render s = (if mounted s then s\<lparr>submit_disabled := loading s\<rparr> else s)"

subsection \<open>The fields of the form\<close>

text \<open>
  The three fields are \<open>input\<close> elements read through \<open>register\<close>, so the form library
  takes the value of a field from its element. The name field has the default type
  \<open>text\<close> (lines 180-185), the email field has \<open>type="email"\<close> (lines 197-203) and the
  password field the type \<open>password\<close> or \<open>text\<close> (lines 216-222). The value of an
  element is what was entered, sanitized for its type: line breaks (LF, CR) are removed
  for all three types, and for the email type the ASCII white space (TAB, LF, FF, CR,
  SP) at both ends is removed after that.
\<close>

definition isNewline :: "char \<Rightarrow> bool" where
  "isNewline c = (code_unit c \<in> {10, 13})"

definition strip_newlines :: "string \<Rightarrow> string" where
  "strip_newlines s = filter (\<lambda>c. \<not> isNewline c) s"

definition isAsciiWhitespace :: "char \<Rightarrow> bool" where
  "isAsciiWhitespace c = (code_unit c \<in> {9, 10, 12, 13, 32})"

definition strip_ascii_whitespace :: "string \<Rightarrow> string" where
  "strip_ascii_whitespace s =
     rev (dropWhile isAsciiWhitespace (rev (dropWhile isAsciiWhitespace s)))"

text \<open>The values of the fields after the user has entered \<open>t\<close>.\<close>

definition field_values :: "SignupForm \<Rightarrow> SignupForm" where
  "field_values t =
     \<lparr>name = strip_newlines (name t),
      email = strip_ascii_whitespace (strip_newlines (email t)),
      password = strip_newlines (password t)\<rparr>"

text \<open>
  The form has no \<open>noValidate\<close> (line 173), so the browser checks the fields before it
  fires the submit event, and fires none when a field is invalid. No field is required
  or bounded in length; the one constraint is that of the email type: a value that is
  not empty must be a valid email address of HTML,
  \<^verbatim>\<open>1*( atext / "." ) "@" label *( "." label )\<close>, where a label has at most 63
  characters, all letters, digits or hyphens, the first and the last a letter or digit.
\<close>

definition atext :: "char \<Rightarrow> bool" where
  "atext c = (isAlnum c \<or> c = CHR 0x27 \<or> c \<in> set ''!#$%&*+-/=?^_`{|}~'')"

fun html_label :: "string \<Rightarrow> bool" where
  "html_label [] = False"
| "html_label (c # cs) =
     (length (c # cs) \<le> 63 \<and> isAlnum c \<and> isAlnum (last (c # cs)) \<and> list_all label_char cs)"

definition html_email :: "string \<Rightarrow> bool" where
  "html_email s =
     (let local = takeWhile (\<lambda>c. c \<noteq> CHR ''@'') s;
          rest = dropWhile (\<lambda>c. c \<noteq> CHR ''@'') s
      in local \<noteq> [] \<and> list_all (\<lambda>c. atext c \<or> c = CHR ''.'') local \<and>
         (case rest of [] \<Rightarrow> False | at # domain \<Rightarrow> list_all html_label (splitOn CHR ''.'' domain)))"

definition checkValidity :: "SignupForm \<Rightarrow> bool" where
  "checkValidity d = (email d = [] \<or> html_email (email d))"

subsection \<open>The events of a mount\<close>

text \<open>
  \<open>ClickSubmit t\<close>: the user activates the submit button after
  entering \<open>t\<close> in the fields. An unmounted page, a button whose \<open>disabled\<close> attribute is
  set and a form with an invalid field submit nothing; otherwise the submit event runs
  \<open>handleSubmit\<close> on the values of the fields. The resolver and \<open>onSubmit\<close> up to its
  \<open>await\<close> run in the microtasks of that event, before any other event of the page;
  \<open>onSubmit\<close> itself does not read \<open>loading\<close>. \<open>Render\<close>: React renders the page from
  its state; this happens some time after a state update, not with it.
  \<open>Settle i r f\<close>: the promise of the \<open>i\<close>-th outstanding request settles as \<open>r\<close>, and the
  toast library behaves as \<open>f\<close> in the continuation. \<open>Tick dt\<close>: \<open>dt\<close> milliseconds pass,
  and the timers that are due run their callback. \<open>Unmount\<close>: the page is torn down; the
  source registers no cleanup, so the requests and timers stay.
\<close>

datatype event =
    ClickSubmit SignupForm
  | Render
  | Settle nat settlement faults
  | Tick nat
  | Unmount

definition fire_timers :: "State \<Rightarrow> State" where
  "fire_timers s =
     s\<lparr>trace := trace s @ map (\<lambda>(due, route). (clock s, Navigate route))
                            (filter (\<lambda>(due, route). due \<le> clock s) (timers s)),
       timers := filter (\<lambda>(due, route). \<not> due \<le> clock s) (timers s)\<rparr>"

definition settle :: "nat \<Rightarrow> settlement \<Rightarrow> faults \<Rightarrow> State \<Rightarrow> State" where
  "settle i r f s =
     (if i < length (inflight s) then
        (case onSubmit_resume f r (s\<lparr>inflight := take i (inflight s) @ drop (Suc i) (inflight s)\<rparr>) of
           (s', Normal) \<Rightarrow> s'
         | (s', Abrupt err) \<Rightarrow> s'\<lparr>uncaught := uncaught s' @ [err]\<rparr>)
      else s)"

fun step :: "event \<Rightarrow> State \<Rightarrow> State" where
  "step (ClickSubmit t) s =
     (if mounted s \<and> \<not> submit_disabled s \<and> checkValidity (field_values t)
      then handleSubmit (field_values t) s else s)"
| "step Render s = render s"
| "step (Settle i r f) s = settle i r f s"
| "step (Tick dt) s = fire_timers (s\<lparr>clock := clock s + dt\<rparr>)"
| "step Unmount s = s\<lparr>mounted := False\<rparr>"

fun run :: "event list \<Rightarrow> State \<Rightarrow> State" where
  "run [] s = s"
| "run (e # es) s = run es (step e s)"

text \<open>A run in which the page is rendered after every event.\<close>

fun run_rendered :: "event list \<Rightarrow> State \<Rightarrow> State" where
  "run_rendered [] s = s"
| "run_rendered (e # es) s = run_rendered es (render (step e s))"

section \<open>Notions of the specification\<close>

text \<open>
  The fallback chain in the words of the specification: of an ordered list of candidates,
  the first one that is present and not empty; the default when there is none.
\<close>

definition fallback_chain :: "string option list \<Rightarrow> string \<Rightarrow> string" where
  "fallback_chain cs d = (case List.find truthy cs of Some (Some m) \<Rightarrow> m | _ \<Rightarrow> d)"

text \<open>The success toast of lines 68-72.\<close>

definition success_toast :: effect where
  "success_toast = Toast Success ''Signup successful! Redirecting to dashboard...'' 1800"

fun is_post :: "effect \<Rightarrow> bool" where
  "is_post (Post url payload) = True"
| "is_post _ = False"

fun is_success :: "effect \<Rightarrow> bool" where
  "is_success (Toast Success m d) = True"
| "is_success _ = False"

fun is_navigate :: "effect \<Rightarrow> bool" where
  "is_navigate (Navigate route) = True"
| "is_navigate _ = False"

definition count_effects :: "(effect \<Rightarrow> bool) \<Rightarrow> (nat \<times> effect) list \<Rightarrow> nat" where
  "count_effects P tr = length (filter (\<lambda>(t, e). P e) tr)"

text \<open>
  The single-flight invariant: at most one request is outstanding, \<open>loading\<close> holds while
  one is, on a mounted page \<open>loading\<close> holds only then, and the button of a mounted page
  shows \<open>loading\<close>.
\<close>

definition single_flight :: "State \<Rightarrow> bool" where
  "single_flight s =
     (length (inflight s) \<le> 1 \<and> (inflight s \<noteq> [] \<longrightarrow> loading s) \<and>
      (mounted s \<and> loading s \<longrightarrow> inflight s \<noteq> []) \<and>
      (mounted s \<longrightarrow> submit_disabled s = loading s))"

text \<open>
  The navigation invariant: the success toasts are as many as the navigations pending
  as timers and done together; a pending timer is due 900 ms after a success toast, in
  the future, and leads to the dashboard; a navigation done leads to the dashboard and
  happened at least 900 ms after a success toast; and every success toast has its
  navigation pending, due 900 ms after it, or done at least 900 ms after it.
\<close>

definition navigation_inv :: "State \<Rightarrow> bool" where
  "navigation_inv s =
     (count_effects is_success (trace s) = count_effects is_navigate (trace s) + length (timers s) \<and>
      (\<forall>(due, route) \<in> set (timers s).
         route = ''/dashboard'' \<and> (\<exists>t0. due = t0 + 900 \<and> (t0, success_toast) \<in> set (trace s))) \<and>
      (\<forall>(t, e) \<in> set (trace s). \<forall>route. e = Navigate route \<longrightarrow>
         route = ''/dashboard'' \<and> (\<exists>t0. t0 + 900 \<le> t \<and> (t0, success_toast) \<in> set (trace s))) \<and>
      (\<forall>(due, route) \<in> set (timers s). clock s < due) \<and>
      (\<forall>(t0, e) \<in> set (trace s). e = success_toast \<longrightarrow>
         (t0 + 900, ''/dashboard'') \<in> set (timers s) \<or>
         (\<exists>t. t0 + 900 \<le> t \<and> (t, Navigate ''/dashboard'') \<in> set (trace s))))"

section \<open>Validation\<close>

lemma schema_valid_iff:
  "SignupSchema d = [] \<longleftrightarrow> 2 \<le> length (name d) \<and> zod_email (email d) \<and> 6 \<le> length (password d)"
  by (auto simp: SignupSchema_def string_min_def string_email_def)

lemma resolver_name:
  "zodResolver d Name = (if length (name d) < 2 then Some ''Name must be at least 2 characters'' else None)"
  by (simp add: zodResolver_def SignupSchema_def string_min_def string_email_def)

lemma resolver_email:
  "zodResolver d Email = (if zod_email (email d) then None else Some ''Enter a valid email address'')"
  by (simp add: zodResolver_def SignupSchema_def string_min_def string_email_def)

lemma resolver_password:
  "zodResolver d Password = (if length (password d) < 6 then Some ''Password must be at least 6 characters'' else None)"
  by (simp add: zodResolver_def SignupSchema_def string_min_def string_email_def)

lemma splitOn_nonempty: "splitOn c s \<noteq> []"
  by (induction s) (auto split: list.splits)

lemma splitOn_chars: "x \<in> set s \<Longrightarrow> x = c \<or> (\<exists>p \<in> set (splitOn c s). x \<in> set p)"
  by (induction s) (auto split: list.splits simp: splitOn_nonempty)

lemma splitOn_single: "splitOn c s = [p] \<Longrightarrow> p = s"
  by (induction s arbitrary: p) (auto split: if_splits list.splits simp: splitOn_nonempty)

lemma splitOn_last_suffix: "\<exists>pre. s = pre @ last (splitOn c s)"
proof (induction s)
  case Nil
  then show ?case by simp
next
  case (Cons x s)
  then obtain pre where pre: "s = pre @ last (splitOn c s)" by blast
  show ?case
  proof (cases "splitOn c s")
    case Nil
    then show ?thesis by (simp add: splitOn_nonempty)
  next
    case outer: (Cons p ps)
    show ?thesis
    proof (cases ps)
      case Nil
      with outer have "p = s" by (simp add: splitOn_single)
      with outer Nil show ?thesis by (cases "x = c") auto
    next
      case (Cons q qs)
      with outer have "last (splitOn c (x # s)) = last (splitOn c s)"
        by (cases "x = c") simp_all
      with pre have "x # s = (x # pre) @ last (splitOn c (x # s))"
        by simp
      then show ?thesis by blast
    qed
  qed
qed

lemma local_ok_chars: "local_ok l \<Longrightarrow> l \<noteq> [] \<and> (\<forall>c \<in> set l. local_char c)"
  by (induction l rule: local_ok.induct) (auto simp: local_char_def)

lemma label_ok_chars: "label_ok p \<Longrightarrow> c \<in> set p \<Longrightarrow> label_char c"
  by (cases p) (auto simp: label_char_def list_all_iff)

lemma at_not_local_char: "\<not> local_char CHR ''@''"
  by (simp add: local_char_def local_last_char_def isAlnum_def isAlpha_def isDigit_def code_unit_def)

lemma at_not_label_char: "\<not> label_char CHR ''@''"
  by (simp add: label_char_def isAlnum_def isAlpha_def isDigit_def code_unit_def)

lemma at_not_alpha: "\<not> isAlpha CHR ''@''"
  by (simp add: isAlpha_def code_unit_def)

lemma local_char_not_space: "local_char c \<Longrightarrow> \<not> isWhiteSpace c"
  by (auto simp: local_char_def local_last_char_def isAlnum_def isAlpha_def isDigit_def
      isWhiteSpace_def code_unit_def)

lemma alpha_not_space: "isAlpha c \<Longrightarrow> \<not> isWhiteSpace c"
  by (auto simp: isAlpha_def isWhiteSpace_def code_unit_def)

lemma domain_ok_pieces:
  assumes "domain_ok dm"
  obtains labels tld where "splitOn CHR ''.'' dm = rev labels @ [tld]" "labels \<noteq> []"
    "list_all label_ok labels" "tld_ok tld"
proof -
  from assms obtain tld labels where r: "rev (splitOn CHR ''.'' dm) = tld # labels"
    and ok: "labels \<noteq> []" "list_all label_ok labels" "tld_ok tld"
    by (auto simp: domain_ok_def split: list.splits)
  from r have "splitOn CHR ''.'' dm = rev labels @ [tld]"
    by (simp add: rev_swap)
  with ok show ?thesis using that by blast
qed

lemma domain_ok_no_at:
  assumes "domain_ok dm"
  shows "CHR ''@'' \<notin> set dm"
proof
  assume mem: "CHR ''@'' \<in> set dm"
  from assms obtain labels tld where sp: "splitOn CHR ''.'' dm = rev labels @ [tld]"
    and ok: "list_all label_ok labels" "tld_ok tld"
    by (rule domain_ok_pieces)
  from splitOn_chars [OF mem, of "CHR ''.''"] obtain p
    where p: "p \<in> set (splitOn CHR ''.'' dm)" "CHR ''@'' \<in> set p"
    by auto
  from p(1) sp have "p = tld \<or> p \<in> set labels" by auto
  then show False
  proof
    assume "p = tld"
    with ok(2) p(2) have "isAlpha CHR ''@''" by (auto simp: tld_ok_def list_all_iff)
    then show False by (simp add: at_not_alpha)
  next
    assume "p \<in> set labels"
    with ok(1) have "label_ok p" by (simp add: list_all_iff)
    from this p(2) have "label_char CHR ''@''" by (rule label_ok_chars)
    then show False by (simp add: at_not_label_char)
  qed
qed

lemma domain_ok_last:
  assumes "domain_ok dm"
  shows "dm \<noteq> [] \<and> isAlpha (last dm)"
proof -
  from assms obtain labels tld where sp: "splitOn CHR ''.'' dm = rev labels @ [tld]"
    and ok: "tld_ok tld"
    by (rule domain_ok_pieces)
  from splitOn_last_suffix [of dm "CHR ''.''"] sp obtain pre where pre: "dm = pre @ tld"
    by auto
  from ok have ne: "tld \<noteq> []" and al: "\<forall>c \<in> set tld. isAlpha c"
    by (auto simp: tld_ok_def list_all_iff)
  from ne pre have "dm \<noteq> []" "last dm = last tld" by auto
  with ne al show ?thesis by auto
qed

lemma zod_email_parts:
  assumes "zod_email s"
  obtains l dm where "s = l @ ''@'' @ dm" "local_ok l" "domain_ok dm" "CHR ''@'' \<notin> set l"
proof -
  let ?l = "takeWhile (\<lambda>c. c \<noteq> CHR ''@'') s"
  let ?r = "dropWhile (\<lambda>c. c \<noteq> CHR ''@'') s"
  from assms obtain a dm where r: "?r = a # dm" and ok: "local_ok ?l" "domain_ok dm"
    by (auto simp: zod_email_def Let_def split: list.splits)
  from r have "a = CHR ''@''"
    using hd_dropWhile [of "\<lambda>c. c \<noteq> CHR ''@''" s] by auto
  with r have "s = ?l @ ''@'' @ dm"
    using takeWhile_dropWhile_id [of "\<lambda>c. c \<noteq> CHR ''@''" s] by simp
  moreover have "CHR ''@'' \<notin> set ?l"
    by (auto dest: set_takeWhileD)
  ultimately show ?thesis using ok that by blast
qed

lemma zod_email_shape:
  assumes "zod_email s"
  shows "\<exists>l dm. s = l @ ''@'' @ dm \<and> l \<noteq> [] \<and> dm \<noteq> [] \<and> CHR ''@'' \<notin> set l \<and> CHR ''@'' \<notin> set dm"
proof -
  from assms obtain l dm where p: "s = l @ ''@'' @ dm" "local_ok l" "domain_ok dm" "CHR ''@'' \<notin> set l"
    by (rule zod_email_parts)
  from p(2) have "l \<noteq> []" by (simp add: local_ok_chars)
  moreover from p(3) have "dm \<noteq> []" by (simp add: domain_ok_last)
  moreover from p(3) have "CHR ''@'' \<notin> set dm" by (rule domain_ok_no_at)
  ultimately show ?thesis using p(1,4) by blast
qed

lemma trim_id:
  assumes "s \<noteq> []" "\<not> isWhiteSpace (hd s)" "\<not> isWhiteSpace (last s)"
  shows "trim s = s"
proof -
  from assms(1,2) have 1: "dropWhile isWhiteSpace s = s" by (cases s) auto
  from assms(1,3) have 2: "dropWhile isWhiteSpace (rev s) = rev s"
    by (cases "rev s") (auto simp: last_rev [symmetric] simp del: last_rev)
  show ?thesis by (simp add: trim_def trimStart_def trimEnd_def 1 2)
qed

lemma zod_email_trim:
  assumes "zod_email s"
  shows "trim s = s"
proof -
  from assms obtain l dm where p: "s = l @ ''@'' @ dm" "local_ok l" "domain_ok dm"
    by (rule zod_email_parts)
  from p(2) have l: "l \<noteq> []" "local_char (hd l)" by (auto simp: local_ok_chars)
  from p(3) have d: "dm \<noteq> []" "isAlpha (last dm)" by (auto simp: domain_ok_last)
  from p(1) l(1) have "hd s = hd l" by simp
  moreover from p(1) d(1) have "last s = last dm" by simp
  moreover from p(1) have "s \<noteq> []" by simp
  ultimately show ?thesis
    using l(2) d(2) by (simp add: trim_id local_char_not_space alpha_not_space)
qed

section \<open>The error message\<close>

lemma errorMessage_fallback:
  "errorMessage err =
     fallback_chain [response_data_message err, response_data_error err, err_message err] ''Signup failed.''"
  by (cases "response_data_message err"; cases "response_data_error err"; cases "err_message err")
     (simp_all add: errorMessage_def fallback_chain_def js_or_def or_literal_def)

lemma errorMessage_nonempty: "errorMessage err \<noteq> []"
  by (simp add: errorMessage_def js_or_def or_literal_def split: option.splits)

section \<open>The fields of the form\<close>

lemma strip_newlines_id: "list_all (\<lambda>c. \<not> isNewline c) s \<Longrightarrow> strip_newlines s = s"
  by (simp add: strip_newlines_def list_all_iff)

lemma ascii_whitespace_is_whitespace: "isAsciiWhitespace c \<Longrightarrow> isWhiteSpace c"
  by (auto simp: isAsciiWhitespace_def isWhiteSpace_def)

lemma dropWhile_weaker:
  assumes "\<And>x. Q x \<Longrightarrow> P x"
  shows "dropWhile P (dropWhile Q xs) = dropWhile P xs"
  using assms by (induction xs) auto

lemma trimStart_strip: "trimStart (dropWhile isAsciiWhitespace s) = trimStart s"
  unfolding trimStart_def by (rule dropWhile_weaker) (rule ascii_whitespace_is_whitespace)

lemma trimEnd_strip: "trimEnd (rev (dropWhile isAsciiWhitespace (rev s))) = trimEnd s"
  unfolding trimEnd_def
  by (simp add: dropWhile_weaker [of isAsciiWhitespace isWhiteSpace] ascii_whitespace_is_whitespace)

lemma trim_commute: "trimEnd (trimStart s) = trimStart (trimEnd s)"
proof (cases "\<forall>c \<in> set s. isWhiteSpace c")
  case True
  then have e: "dropWhile isWhiteSpace s = []" "dropWhile isWhiteSpace (rev s) = []"
    by simp_all
  show ?thesis unfolding trimStart_def trimEnd_def e by simp
next
  case False
  let ?a = "takeWhile isWhiteSpace s"
  from False have ne: "dropWhile isWhiteSpace s \<noteq> []" by simp
  then obtain x b where d: "dropWhile isWhiteSpace s = x # b" by (cases "dropWhile isWhiteSpace s") auto
  from d have x: "\<not> isWhiteSpace x" using hd_dropWhile [OF ne] by simp
  have s: "s = ?a @ x # b" using takeWhile_dropWhile_id [of isWhiteSpace s] d by simp
  have a: "\<forall>c \<in> set ?a. isWhiteSpace c" by (auto dest: set_takeWhileD)
  let ?e = "rev (dropWhile isWhiteSpace (rev b))"
  have 1: "trimEnd (x # b) = x # ?e"
    using x by (simp add: trimEnd_def dropWhile_append3)
  have 2: "trimEnd (?a @ x # b) = ?a @ x # ?e"
    using x by (simp add: trimEnd_def dropWhile_append3)
  have 3: "trimStart (?a @ x # ?e) = x # ?e"
    using a x by (simp add: trimStart_def dropWhile_append2)
  have "trimEnd (trimStart s) = x # ?e"
    using d 1 by (simp add: trimStart_def)
  moreover have "trimStart (trimEnd s) = x # ?e"
    using s 2 3 by metis
  ultimately show ?thesis by simp
qed

lemma trim_strip_ascii_whitespace: "trim (strip_ascii_whitespace s) = trim s"
proof -
  let ?u = "dropWhile isAsciiWhitespace s"
  have "trim (strip_ascii_whitespace s) = trimStart (trimEnd (rev (dropWhile isAsciiWhitespace (rev ?u))))"
    by (simp add: trim_def strip_ascii_whitespace_def trim_commute)
  also have "\<dots> = trimStart (trimEnd ?u)" by (simp only: trimEnd_strip)
  also have "\<dots> = trimEnd (trimStart ?u)" by (simp only: trim_commute)
  also have "\<dots> = trimEnd (trimStart s)" by (simp only: trimStart_strip)
  finally show ?thesis by (simp add: trim_def)
qed

lemma field_values_typed:
  assumes "list_all (\<lambda>c. \<not> isNewline c) (name t @ email t @ password t)"
  shows "name (field_values t) = name t \<and> password (field_values t) = password t \<and>
         trim (email (field_values t)) = trim (email t)"
  using assms by (simp add: field_values_def strip_newlines_id trim_strip_ascii_whitespace)

section \<open>The events of a mount\<close>

lemmas settle_defs = settle_def onSubmit_resume_def try_block_def catch_block_def
  finally_block_def setLoading_def emit_def setTimeout_def

lemmas submit_defs = handleSubmit_def onSubmit_def api_post_def setLoading_def emit_def

lemma settle_loading: "mounted s \<Longrightarrow> i < length (inflight s) \<Longrightarrow> \<not> loading (settle i r f s)"
  by (simp add: settle_defs split: settlement.splits option.splits)

lemma resume_loading: "mounted s \<Longrightarrow> \<not> loading (fst (onSubmit_resume f r s))"
  by (simp add: settle_defs split: settlement.splits option.splits)

lemma handleSubmit_invalid:
  "SignupSchema d \<noteq> [] \<Longrightarrow> handleSubmit d s = s\<lparr>errors := SignupSchema d\<rparr>"
  by (simp add: submit_defs)

text \<open>
  The handler itself does not read \<open>loading\<close>: called on a valid input it sends a
  request in every state. What keeps a second submit from it is the disabled button.
\<close>

lemma handleSubmit_unguarded:
  "SignupSchema d = [] \<Longrightarrow> inflight (handleSubmit d s) = inflight s @ [payload_of d]"
  by (simp add: submit_defs)

lemma click_valid:
  "mounted s \<Longrightarrow> \<not> submit_disabled s \<Longrightarrow> checkValidity (field_values t) \<Longrightarrow>
   SignupSchema (field_values t) = [] \<Longrightarrow>
   step (ClickSubmit t) s =
     s\<lparr>loading := True, errors := [], inflight := inflight s @ [payload_of (field_values t)],
       trace := trace s @ [(clock s, Post ''/auth/signup'' (payload_of (field_values t)))]\<rparr>"
  by (simp add: submit_defs)

lemma click_invalid:
  "SignupSchema (field_values t) \<noteq> [] \<Longrightarrow>
   step (ClickSubmit t) s =
     (if mounted s \<and> \<not> submit_disabled s \<and> checkValidity (field_values t)
      then s\<lparr>errors := SignupSchema (field_values t)\<rparr> else s)"
  by (simp add: submit_defs)

lemma click_blocked:
  "\<not> (mounted s \<and> \<not> submit_disabled s \<and> checkValidity (field_values t)) \<Longrightarrow>
   step (ClickSubmit t) s = s"
  by auto

lemma render_fields [simp]:
  "loading (render s) = loading s" "errors (render s) = errors s" "mounted (render s) = mounted s"
  "inflight (render s) = inflight s" "timers (render s) = timers s" "clock (render s) = clock s"
  "trace (render s) = trace s"
  by (simp_all add: render_def)

lemma render_button: "mounted s \<Longrightarrow> submit_disabled (render s) = loading s"
  by (simp add: render_def)

lemma single_flight_init: "single_flight init"
  by (simp add: single_flight_def init_def)

lemma single_flight_step: "single_flight s \<Longrightarrow> single_flight (render (step ev s))"
proof (cases ev)
  case (ClickSubmit t)
  assume inv: "single_flight s"
  show ?thesis
  proof (cases "mounted s \<and> \<not> submit_disabled s \<and> checkValidity (field_values t)")
    case True
    with inv have "inflight s = []" "\<not> loading s" by (auto simp: single_flight_def)
    with True inv ClickSubmit show ?thesis
      by (cases "SignupSchema (field_values t) = []")
         (simp_all add: click_valid click_invalid single_flight_def render_button del: step.simps)
  next
    case False
    with inv ClickSubmit show ?thesis
      by (simp add: click_blocked single_flight_def render_def del: step.simps)
  qed
next
  case Render
  assume "single_flight s"
  with Render show ?thesis by (simp add: single_flight_def render_def)
next
  case (Settle i r f)
  assume inv: "single_flight s"
  show ?thesis
  proof (cases "i < length (inflight s)")
    case True
    with inv have "i = 0" "length (inflight s) = 1" by (auto simp: single_flight_def)
    with inv Settle show ?thesis
      by (simp add: single_flight_def render_def settle_defs split: settlement.splits option.splits)
  next
    case False
    with inv Settle show ?thesis by (simp add: settle_def single_flight_def render_def)
  qed
next
  case (Tick dt)
  assume "single_flight s"
  with Tick show ?thesis by (simp add: single_flight_def fire_timers_def render_def)
next
  case Unmount
  assume "single_flight s"
  with Unmount show ?thesis by (simp add: single_flight_def render_def)
qed

lemma single_flight_run_rendered: "single_flight s \<Longrightarrow> single_flight (run_rendered es s)"
  by (induction es arbitrary: s) (simp_all add: single_flight_step del: step.simps)

lemma count_effects_append [simp]:
  "count_effects P (xs @ ys) = count_effects P xs + count_effects P ys"
  by (simp add: count_effects_def)

lemma count_effects_Nil [simp]: "count_effects P [] = 0"
  by (simp add: count_effects_def)

lemma count_effects_single [simp]: "count_effects P [(t, e)] = (if P e then 1 else 0)"
  by (simp add: count_effects_def)

lemma count_fired_navigate [simp]:
  "count_effects is_navigate (map (\<lambda>(due, route). (c, Navigate route)) ts) = length ts"
  by (induction ts) (simp_all add: count_effects_def split_def)

lemma count_fired_post [simp]:
  "count_effects is_post (map (\<lambda>(due, route). (c, Navigate route)) ts) = 0"
  by (induction ts) (simp_all add: count_effects_def split_def)

lemma count_fired_success [simp]:
  "count_effects is_success (map (\<lambda>(due, route). (c, Navigate route)) ts) = 0"
  by (induction ts) (simp_all add: count_effects_def split_def)

lemma settle_fulfilled:
  "i < length (inflight s) \<Longrightarrow> toast_success_throws f = None \<Longrightarrow>
   trace (settle i Fulfilled f s) = trace s @ [(clock s, success_toast)] \<and>
   timers (settle i Fulfilled f s) = timers s @ [(clock s + 900, ''/dashboard'')]"
  by (simp add: settle_defs success_toast_def)

lemma settle_fulfilled_toast_throws:
  "i < length (inflight s) \<Longrightarrow> toast_success_throws f = Some e \<Longrightarrow>
   trace (settle i Fulfilled f s) =
     trace s @ (case toast_error_throws f of None \<Rightarrow> [(clock s, Toast Failure (errorMessage e) 2200)] | Some e' \<Rightarrow> []) \<and>
   timers (settle i Fulfilled f s) = timers s"
  by (simp add: settle_defs split: option.splits)

lemma settle_rejected:
  "i < length (inflight s) \<Longrightarrow>
   trace (settle i (Rejected e) f s) =
     trace s @ (case toast_error_throws f of None \<Rightarrow> [(clock s, Toast Failure (errorMessage e) 2200)] | Some e' \<Rightarrow> []) \<and>
   timers (settle i (Rejected e) f s) = timers s"
  by (simp add: settle_defs split: option.splits)

lemma settle_out_of_range: "\<not> i < length (inflight s) \<Longrightarrow> settle i r f s = s"
  by (simp add: settle_def)

lemma settle_clock [simp]: "clock (settle i r f s) = clock s"
  by (simp add: settle_defs split: settlement.splits option.splits)

lemma click_trace_timers:
  "timers (step (ClickSubmit t) s) = timers s \<and> clock (step (ClickSubmit t) s) = clock s \<and>
   (trace (step (ClickSubmit t) s) = trace s \<or>
    trace (step (ClickSubmit t) s) =
      trace s @ [(clock s, Post ''/auth/signup'' (payload_of (field_values t)))])"
  by (simp add: submit_defs Let_def)

lemma post_only_valid:
  assumes "count_effects is_post (trace (step ev s)) \<noteq> count_effects is_post (trace s)"
  shows "\<exists>t. ev = ClickSubmit t \<and> SignupSchema (field_values t) = [] \<and>
             checkValidity (field_values t) \<and> mounted s \<and> \<not> submit_disabled s"
proof (cases ev)
  case (ClickSubmit t)
  show ?thesis
  proof (cases "SignupSchema (field_values t) = []")
    case True
    with assms ClickSubmit show ?thesis
      by (cases "mounted s \<and> \<not> submit_disabled s \<and> checkValidity (field_values t)") auto
  next
    case False
    with assms ClickSubmit show ?thesis
      by (auto simp: click_invalid simp del: step.simps split: if_splits)
  qed
next
  case Render
  with assms show ?thesis by simp
next
  case (Settle i r f)
  have "count_effects is_post (trace (settle i r f s)) = count_effects is_post (trace s)"
  proof (cases "i < length (inflight s)")
    case True
    then show ?thesis
      by (cases r; cases "toast_success_throws f"; cases "toast_error_throws f")
         (simp_all add: settle_fulfilled settle_fulfilled_toast_throws settle_rejected success_toast_def)
  next
    case False
    then show ?thesis by (simp add: settle_out_of_range)
  qed
  with assms Settle show ?thesis by simp
next
  case (Tick dt)
  with assms show ?thesis by (simp add: fire_timers_def)
next
  case Unmount
  with assms show ?thesis by simp
qed

lemma unmounted_component_state:
  assumes "\<not> mounted s"
  shows "loading (step ev s) = loading s \<and> errors (step ev s) = errors s \<and> \<not> mounted (step ev s)"
proof (cases ev)
  case (ClickSubmit t)
  with assms show ?thesis by simp
next
  case Render
  with assms show ?thesis by simp
next
  case (Settle i r f)
  with assms show ?thesis
    by (simp add: settle_defs split: settlement.splits option.splits)
next
  case (Tick dt)
  with assms show ?thesis by (simp add: fire_timers_def)
next
  case Unmount
  with assms show ?thesis by simp
qed

lemma due_timer_fires:
  assumes "(due, route) \<in> set (timers s)" "due \<le> clock s + dt"
  shows "(clock s + dt, Navigate route) \<in> set (trace (step (Tick dt) s))"
  using assms by (force simp: fire_timers_def)

lemma navigate_only_tick:
  assumes "count_effects is_navigate (trace (step ev s)) \<noteq> count_effects is_navigate (trace s)"
  shows "\<exists>dt. ev = Tick dt"
proof (cases ev)
  case (ClickSubmit t)
  with assms click_trace_timers [of t s] show ?thesis by auto
next
  case Render
  with assms show ?thesis by simp
next
  case (Settle i r f)
  have "count_effects is_navigate (trace (settle i r f s)) = count_effects is_navigate (trace s)"
  proof (cases "i < length (inflight s)")
    case True
    then show ?thesis
      by (cases r; cases "toast_success_throws f"; cases "toast_error_throws f")
         (simp_all add: settle_fulfilled settle_fulfilled_toast_throws settle_rejected success_toast_def)
  next
    case False
    then show ?thesis by (simp add: settle_out_of_range)
  qed
  with assms Settle show ?thesis by simp
next
  case (Tick dt)
  then show ?thesis by simp
next
  case Unmount
  with assms show ?thesis by simp
qed

lemma settle_then_tick_navigates:
  assumes "i < length (inflight s)" "toast_success_throws f = None" "900 \<le> dt"
  shows "(clock s + dt, Navigate ''/dashboard'') \<in>
           set (trace (step (Tick dt) (step (Settle i Fulfilled f) s)))"
proof -
  let ?s = "step (Settle i Fulfilled f) s"
  from assms(1,2) have "(clock s + 900, ''/dashboard'') \<in> set (timers ?s)"
    by (simp add: settle_fulfilled)
  moreover have "clock ?s = clock s" by simp
  moreover from assms(3) have "clock s + 900 \<le> clock s + dt" by simp
  ultimately show ?thesis
    using due_timer_fires [of "clock s + 900" "''/dashboard''" ?s dt] by (simp del: step.simps)
qed

section \<open>Invariants of a mount\<close>

lemma navigation_inv_init: "navigation_inv init"
  by (simp add: navigation_inv_def init_def)

lemma navigation_inv_same:
  assumes "navigation_inv s" "timers s' = timers s" "trace s' = trace s" "clock s' = clock s"
  shows "navigation_inv s'"
  using assms unfolding navigation_inv_def by simp

lemma navigation_inv_grow:
  assumes inv: "navigation_inv s" and ti: "timers s' = timers s" and cl: "clock s' = clock s"
    and tr: "trace s' = trace s @ [(t, e)]" and e: "\<not> is_success e" "\<not> is_navigate e"
  shows "navigation_inv s'"
proof -
  from e have ne: "e \<noteq> success_toast" "\<And>route. e \<noteq> Navigate route"
    by (auto simp: success_toast_def)
  from inv have c: "count_effects is_success (trace s) = count_effects is_navigate (trace s) + length (timers s)"
    and tm: "\<forall>(due, route) \<in> set (timers s).
         route = ''/dashboard'' \<and> (\<exists>t0. due = t0 + 900 \<and> (t0, success_toast) \<in> set (trace s))"
    and nv: "\<forall>(t, e) \<in> set (trace s). \<forall>route. e = Navigate route \<longrightarrow>
         route = ''/dashboard'' \<and> (\<exists>t0. t0 + 900 \<le> t \<and> (t0, success_toast) \<in> set (trace s))"
    and fu: "\<forall>(due, route) \<in> set (timers s). clock s < due"
    and lv: "\<forall>(t0, e) \<in> set (trace s). e = success_toast \<longrightarrow>
         (t0 + 900, ''/dashboard'') \<in> set (timers s) \<or>
         (\<exists>t. t0 + 900 \<le> t \<and> (t, Navigate ''/dashboard'') \<in> set (trace s))"
    by (simp_all add: navigation_inv_def)
  have 1: "count_effects is_success (trace s') = count_effects is_navigate (trace s') + length (timers s')"
    using c e by (simp add: tr ti)
  have 2: "\<forall>(due, route) \<in> set (timers s').
         route = ''/dashboard'' \<and> (\<exists>t0. due = t0 + 900 \<and> (t0, success_toast) \<in> set (trace s'))"
    using tm unfolding ti tr by fastforce
  have 3: "\<forall>(t, e) \<in> set (trace s'). \<forall>route. e = Navigate route \<longrightarrow>
         route = ''/dashboard'' \<and> (\<exists>t0. t0 + 900 \<le> t \<and> (t0, success_toast) \<in> set (trace s'))"
    using nv ne(2) unfolding tr by fastforce
  have 4: "\<forall>(due, route) \<in> set (timers s'). clock s' < due"
    using fu by (simp add: ti cl)
  have 5: "\<forall>(t0, e) \<in> set (trace s'). e = success_toast \<longrightarrow>
         (t0 + 900, ''/dashboard'') \<in> set (timers s') \<or>
         (\<exists>t. t0 + 900 \<le> t \<and> (t, Navigate ''/dashboard'') \<in> set (trace s'))"
    using lv ne(1) unfolding tr ti by fastforce
  from 1 2 3 4 5 show ?thesis unfolding navigation_inv_def by blast
qed

lemma navigation_inv_success:
  assumes inv: "navigation_inv s" and ti: "timers s' = timers s @ [(clock s + 900, ''/dashboard'')]"
    and tr: "trace s' = trace s @ [(clock s, success_toast)]" and cl: "clock s' = clock s"
  shows "navigation_inv s'"
proof -
  from inv have c: "count_effects is_success (trace s) = count_effects is_navigate (trace s) + length (timers s)"
    and tm: "\<forall>(due, route) \<in> set (timers s).
         route = ''/dashboard'' \<and> (\<exists>t0. due = t0 + 900 \<and> (t0, success_toast) \<in> set (trace s))"
    and nv: "\<forall>(t, e) \<in> set (trace s). \<forall>route. e = Navigate route \<longrightarrow>
         route = ''/dashboard'' \<and> (\<exists>t0. t0 + 900 \<le> t \<and> (t0, success_toast) \<in> set (trace s))"
    and fu: "\<forall>(due, route) \<in> set (timers s). clock s < due"
    and lv: "\<forall>(t0, e) \<in> set (trace s). e = success_toast \<longrightarrow>
         (t0 + 900, ''/dashboard'') \<in> set (timers s) \<or>
         (\<exists>t. t0 + 900 \<le> t \<and> (t, Navigate ''/dashboard'') \<in> set (trace s))"
    by (simp_all add: navigation_inv_def)
  have 1: "count_effects is_success (trace s') = count_effects is_navigate (trace s') + length (timers s')"
    using c by (simp add: tr ti success_toast_def)
  have 2: "\<forall>(due, route) \<in> set (timers s').
         route = ''/dashboard'' \<and> (\<exists>t0. due = t0 + 900 \<and> (t0, success_toast) \<in> set (trace s'))"
    using tm unfolding ti tr by fastforce
  have 3: "\<forall>(t, e) \<in> set (trace s'). \<forall>route. e = Navigate route \<longrightarrow>
         route = ''/dashboard'' \<and> (\<exists>t0. t0 + 900 \<le> t \<and> (t0, success_toast) \<in> set (trace s'))"
    using nv unfolding tr by (fastforce simp: success_toast_def)
  have 4: "\<forall>(due, route) \<in> set (timers s'). clock s' < due"
    using fu by (auto simp: ti cl)
  have 5: "\<forall>(t0, e) \<in> set (trace s'). e = success_toast \<longrightarrow>
         (t0 + 900, ''/dashboard'') \<in> set (timers s') \<or>
         (\<exists>t. t0 + 900 \<le> t \<and> (t, Navigate ''/dashboard'') \<in> set (trace s'))"
    using lv unfolding tr ti by fastforce
  from 1 2 3 4 5 show ?thesis unfolding navigation_inv_def by blast
qed

lemma navigation_inv_tick:
  assumes "navigation_inv s"
  shows "navigation_inv (step (Tick dt) s)"
proof -
  let ?c = "clock s + dt"
  let ?s' = "step (Tick dt) s"
  let ?due = "\<lambda>(due, route). due \<le> ?c"
  let ?fired = "filter ?due (timers s)"
  have tr: "trace ?s' = trace s @ map (\<lambda>(due, route). (?c, Navigate route)) ?fired"
    and ti: "timers ?s' = filter (\<lambda>(due, route). \<not> due \<le> ?c) (timers s)"
    and cl: "clock ?s' = ?c"
    by (simp_all add: fire_timers_def)
  from assms have c: "count_effects is_success (trace s) = count_effects is_navigate (trace s) + length (timers s)"
    and tm: "\<forall>(due, route) \<in> set (timers s).
         route = ''/dashboard'' \<and> (\<exists>t0. due = t0 + 900 \<and> (t0, success_toast) \<in> set (trace s))"
    and nv: "\<forall>(t, e) \<in> set (trace s). \<forall>route. e = Navigate route \<longrightarrow>
         route = ''/dashboard'' \<and> (\<exists>t0. t0 + 900 \<le> t \<and> (t0, success_toast) \<in> set (trace s))"
    and lv: "\<forall>(t0, e) \<in> set (trace s). e = success_toast \<longrightarrow>
         (t0 + 900, ''/dashboard'') \<in> set (timers s) \<or>
         (\<exists>t. t0 + 900 \<le> t \<and> (t, Navigate ''/dashboard'') \<in> set (trace s))"
    by (simp_all add: navigation_inv_def)
  have len: "length (timers s) = length ?fired + length (timers ?s')"
    unfolding ti using sum_length_filter_compl [of ?due "timers s"]
    by (simp add: split_def)
  have 1: "count_effects is_success (trace ?s') = count_effects is_navigate (trace ?s') + length (timers ?s')"
    using c len by (simp add: tr del: step.simps)
  have 2: "\<forall>(due, route) \<in> set (timers ?s').
         route = ''/dashboard'' \<and> (\<exists>t0. due = t0 + 900 \<and> (t0, success_toast) \<in> set (trace ?s'))"
    using tm unfolding ti tr by fastforce
  have 3: "\<forall>(t, e) \<in> set (trace ?s'). \<forall>route. e = Navigate route \<longrightarrow>
         route = ''/dashboard'' \<and> (\<exists>t0. t0 + 900 \<le> t \<and> (t0, success_toast) \<in> set (trace ?s'))"
  proof (clarify)
    fix t route
    assume "(t, Navigate route) \<in> set (trace ?s')"
    then consider (old) "(t, Navigate route) \<in> set (trace s)"
      | (new) due where "(due, route) \<in> set (timers s)" "due \<le> ?c" "t = ?c"
      unfolding tr by auto
    then show "route = ''/dashboard'' \<and> (\<exists>t0. t0 + 900 \<le> t \<and> (t0, success_toast) \<in> set (trace ?s'))"
    proof cases
      case old
      with nv show ?thesis unfolding tr by fastforce
    next
      case new
      with tm show ?thesis unfolding tr by fastforce
    qed
  qed
  have 4: "\<forall>(due, route) \<in> set (timers ?s'). clock ?s' < due"
    unfolding ti cl by auto
  have 5: "\<forall>(t0, e) \<in> set (trace ?s'). e = success_toast \<longrightarrow>
         (t0 + 900, ''/dashboard'') \<in> set (timers ?s') \<or>
         (\<exists>t. t0 + 900 \<le> t \<and> (t, Navigate ''/dashboard'') \<in> set (trace ?s'))"
  proof (clarify)
    fix t0
    assume mem: "(t0, success_toast) \<in> set (trace ?s')"
      and no: "\<not> (\<exists>t. t0 + 900 \<le> t \<and> (t, Navigate ''/dashboard'') \<in> set (trace ?s'))"
    from mem have old: "(t0, success_toast) \<in> set (trace s)"
      unfolding tr by (auto simp: success_toast_def)
    from no have no_old: "\<not> (\<exists>t. t0 + 900 \<le> t \<and> (t, Navigate ''/dashboard'') \<in> set (trace s))"
      unfolding tr by auto
    with lv old have pend: "(t0 + 900, ''/dashboard'') \<in> set (timers s)" by fastforce
    have "\<not> t0 + 900 \<le> ?c"
    proof
      assume "t0 + 900 \<le> ?c"
      with pend have "(?c, Navigate ''/dashboard'') \<in> set (trace ?s')"
        unfolding tr by force
      with \<open>t0 + 900 \<le> ?c\<close> no show False by blast
    qed
    with pend show "(t0 + 900, ''/dashboard'') \<in> set (timers ?s')"
      unfolding ti by simp
  qed
  from 1 2 3 4 5 show ?thesis unfolding navigation_inv_def by blast
qed

lemma navigation_inv_step:
  assumes "navigation_inv s"
  shows "navigation_inv (step ev s)"
proof (cases ev)
  case (ClickSubmit t)
  from click_trace_timers [of t s] assms show ?thesis
    unfolding ClickSubmit
    by (auto intro: navigation_inv_same navigation_inv_grow)
next
  case Render
  with assms show ?thesis by (auto intro: navigation_inv_same)
next
  case (Settle i r f)
  show ?thesis
  proof (cases "i < length (inflight s)")
    case False
    with assms Settle show ?thesis by (simp add: settle_out_of_range)
  next
    case True
    show ?thesis
    proof (cases r)
      case Fulfilled
      show ?thesis
      proof (cases "toast_success_throws f")
        case None
        with True assms show ?thesis unfolding Settle Fulfilled
          by (auto intro: navigation_inv_success simp: settle_fulfilled)
      next
        case (Some e)
        with True assms show ?thesis unfolding Settle Fulfilled
          by (cases "toast_error_throws f")
             (auto intro: navigation_inv_same navigation_inv_grow simp: settle_fulfilled_toast_throws)
      qed
    next
      case (Rejected e)
      with True assms show ?thesis unfolding Settle
        by (cases "toast_error_throws f")
           (auto intro: navigation_inv_same navigation_inv_grow simp: settle_rejected)
    qed
  qed
next
  case (Tick dt)
  with assms show ?thesis by (simp only: navigation_inv_tick)
next
  case Unmount
  with assms show ?thesis by (simp add: navigation_inv_def)
qed

lemma navigation_inv_run: "navigation_inv s \<Longrightarrow> navigation_inv (run es s)"
  by (induction es arbitrary: s) (simp_all add: navigation_inv_step del: step.simps)

lemma navigation_performed:
  assumes inv: "navigation_inv s" and toast: "(t0, success_toast) \<in> set (trace s)"
    and late: "t0 + 900 \<le> clock s"
  shows "\<exists>t. t0 + 900 \<le> t \<and> (t, Navigate ''/dashboard'') \<in> set (trace s)"
proof (rule ccontr)
  assume no: "\<not> ?thesis"
  from inv toast have "(t0 + 900, ''/dashboard'') \<in> set (timers s) \<or>
         (\<exists>t. t0 + 900 \<le> t \<and> (t, Navigate ''/dashboard'') \<in> set (trace s))"
    unfolding navigation_inv_def by fastforce
  with no have "(t0 + 900, ''/dashboard'') \<in> set (timers s)" by blast
  moreover from inv have "\<forall>(due, route) \<in> set (timers s). clock s < due"
    by (simp add: navigation_inv_def)
  ultimately have "clock s < t0 + 900" by fastforce
  with late show False by simp
qed

section \<open>The claims of the specification\<close>

text \<open>
  C1. Validation succeeds exactly when the name has at least 2 characters, the email
  matches the email pattern and the password has at least 6 characters. Each violated
  rule yields its fixed message under its field, and a field whose rule holds has no
  entry. An email that matches the pattern is a non-empty local part, an \<open>@\<close> and a
  non-empty domain, with no other \<open>@\<close>.
\<close>

theorem signup_schema_validation:
  "(SignupSchema d = [] \<longleftrightarrow>
      2 \<le> length (name d) \<and> zod_email (email d) \<and> 6 \<le> length (password d)) \<and>
   zodResolver d Name =
     (if length (name d) < 2 then Some ''Name must be at least 2 characters'' else None) \<and>
   zodResolver d Email =
     (if zod_email (email d) then None else Some ''Enter a valid email address'') \<and>
   zodResolver d Password =
     (if length (password d) < 6 then Some ''Password must be at least 6 characters'' else None) \<and>
   (zod_email (email d) \<longrightarrow>
      (\<exists>l dm. email d = l @ ''@'' @ dm \<and> l \<noteq> [] \<and> dm \<noteq> [] \<and>
         CHR ''@'' \<notin> set l \<and> CHR ''@'' \<notin> set dm))"
  using schema_valid_iff [of d] resolver_name [of d] resolver_email [of d]
    resolver_password [of d] zod_email_shape [of "email d"]
  by blast

theorem signup_schema_validation_witness:
  "zod_email ''a@b.co'' \<and>
   SignupSchema \<lparr>name = ''A'', email = ''a@b.co'', password = ''12345''\<rparr> \<noteq> [] \<and>
   zodResolver \<lparr>name = ''A'', email = ''a@b.co'', password = ''12345''\<rparr> Name =
     Some ''Name must be at least 2 characters'' \<and>
   zodResolver \<lparr>name = ''A'', email = ''a@b.co'', password = ''12345''\<rparr> Email = None \<and>
   zodResolver \<lparr>name = ''A'', email = ''a@b.co'', password = ''12345''\<rparr> Password =
     Some ''Password must be at least 6 characters'' \<and>
   (\<exists>l dm. ''a@b.co'' = l @ ''@'' @ dm \<and> l \<noteq> [] \<and> dm \<noteq> [] \<and>
      CHR ''@'' \<notin> set l \<and> CHR ''@'' \<notin> set dm)"
proof -
  have e: "zod_email ''a@b.co''" by code_simp
  from signup_schema_validation [of "\<lparr>name = ''A'', email = ''a@b.co'', password = ''12345''\<rparr>"] e
  show ?thesis by simp
qed

text \<open>
  C2. For every input whose field values pass validation, the request sent by a submit
  carries the name trimmed, the email trimmed and in lower case, and the password as it
  is; a submit that is held back (page unmounted, button disabled, field rejected by the
  browser) changes nothing. An input without line breaks reaches the form with its name
  and password as entered and with an email that trims to the same string, so the
  payload is the input with name trimmed, email trimmed and in lower case, and password
  unchanged. The email of a valid input has no white space left at its ends.
\<close>

theorem valid_input_payload:
  assumes "SignupSchema (field_values t) = []"
  shows "(mounted s \<and> \<not> submit_disabled s \<and> checkValidity (field_values t) \<longrightarrow>
            trace (step (ClickSubmit t) s) =
              trace s @ [(clock s, Post ''/auth/signup''
                \<lparr>name = trim (name (field_values t)),
                 email = toLowerCase (trim (email (field_values t))),
                 password = password (field_values t)\<rparr>)] \<and>
            inflight (step (ClickSubmit t) s) =
              inflight s @ [\<lparr>name = trim (name (field_values t)),
                             email = toLowerCase (trim (email (field_values t))),
                             password = password (field_values t)\<rparr>]) \<and>
         (\<not> (mounted s \<and> \<not> submit_disabled s \<and> checkValidity (field_values t)) \<longrightarrow>
            step (ClickSubmit t) s = s) \<and>
         (list_all (\<lambda>c. \<not> isNewline c) (name t @ email t @ password t) \<longrightarrow>
            \<lparr>name = trim (name (field_values t)),
             email = toLowerCase (trim (email (field_values t))),
             password = password (field_values t)\<rparr> =
            \<lparr>name = trim (name t), email = toLowerCase (trim (email t)), password = password t\<rparr>) \<and>
         trim (email (field_values t)) = email (field_values t)"
proof -
  from assms have "zod_email (email (field_values t))" by (simp add: schema_valid_iff)
  then have 1: "trim (email (field_values t)) = email (field_values t)" by (rule zod_email_trim)
  have 2: "mounted s \<and> \<not> submit_disabled s \<and> checkValidity (field_values t) \<longrightarrow>
            trace (step (ClickSubmit t) s) =
              trace s @ [(clock s, Post ''/auth/signup'' (payload_of (field_values t)))] \<and>
            inflight (step (ClickSubmit t) s) = inflight s @ [payload_of (field_values t)]"
    using assms by (simp add: click_valid del: step.simps)
  have 3: "\<not> (mounted s \<and> \<not> submit_disabled s \<and> checkValidity (field_values t)) \<longrightarrow>
            step (ClickSubmit t) s = s"
    using click_blocked [of s t] by blast
  have 4: "list_all (\<lambda>c. \<not> isNewline c) (name t @ email t @ password t) \<longrightarrow>
            payload_of (field_values t) =
            \<lparr>name = trim (name t), email = toLowerCase (trim (email t)), password = password t\<rparr>"
    using field_values_typed [of t] by (simp add: payload_of_def)
  from 1 2 3 4 show ?thesis unfolding payload_of_def by blast
qed

theorem valid_input_payload_witness:
  "SignupSchema (field_values \<lparr>name = '' Al '', email = '' A@B.COM '', password = ''secret1''\<rparr>) = [] \<and>
   mounted init \<and> \<not> submit_disabled init \<and>
   checkValidity (field_values \<lparr>name = '' Al '', email = '' A@B.COM '', password = ''secret1''\<rparr>) \<and>
   list_all (\<lambda>c. \<not> isNewline c) ('' Al '' @ '' A@B.COM '' @ ''secret1'') \<and>
   trace (step (ClickSubmit \<lparr>name = '' Al '', email = '' A@B.COM '', password = ''secret1''\<rparr>) init) =
     [(0, Post ''/auth/signup'' \<lparr>name = ''Al'', email = ''a@b.com'', password = ''secret1''\<rparr>)]"
proof -
  let ?t = "\<lparr>name = '' Al '', email = '' A@B.COM '', password = ''secret1''\<rparr>"
  have v: "SignupSchema (field_values ?t) = []" by code_simp
  have h: "mounted init" "\<not> submit_disabled init" "checkValidity (field_values ?t)"
    "list_all (\<lambda>c. \<not> isNewline c) ('' Al '' @ '' A@B.COM '' @ ''secret1'')"
    by code_simp+
  have n: "list_all (\<lambda>c. \<not> isNewline c) (name ?t @ email ?t @ password ?t)"
    using h(4) by simp
  have e: "trim '' Al '' = ''Al''" "toLowerCase (trim '' A@B.COM '') = ''a@b.com''"
    by code_simp+
  have i: "clock init = 0" "trace init = []" by (simp_all add: init_def)
  from valid_input_payload [OF v, of init] h(1-3) n
  have "trace (step (ClickSubmit ?t) init) =
          trace init @ [(clock init, Post ''/auth/signup''
            \<lparr>name = trim (name ?t), email = toLowerCase (trim (email ?t)), password = password ?t\<rparr>)]"
    by metis
  with e i have "trace (step (ClickSubmit ?t) init) =
     [(0, Post ''/auth/signup'' \<lparr>name = ''Al'', email = ''a@b.com'', password = ''secret1''\<rparr>)]"
    by (simp del: step.simps)
  with v h show ?thesis by blast
qed

text \<open>
  C3. The text of the error toast is the first candidate that applies, in the order:
  the \<open>message\<close> of the response body, the \<open>error\<close> of the response body, the message of
  the error itself, and else \<open>Signup failed.\<close>; a rejected request on which the toast
  library does not fail emits exactly this text. A body with the message
  \<open>Email taken\<close> yields that message, a body with the error \<open>x\<close> and no message yields
  \<open>x\<close>, an error with no response and a message of its own yields that message, and a
  body with neither field on an error with no message yields \<open>Signup failed.\<close>
\<close>

theorem error_message_fallback_order:
  "errorMessage err =
     fallback_chain [response_data_message err, response_data_error err, err_message err]
       ''Signup failed.'' \<and>
   (i < length (inflight s) \<and> toast_error_throws f = None \<longrightarrow>
      trace (step (Settle i (Rejected err) f) s) =
        trace s @ [(clock s, Toast Failure (errorMessage err) 2200)]) \<and>
   errorMessage (Object \<lparr>response = Some \<lparr>data = Some \<lparr>message = Some ''Email taken'', error = e\<rparr>\<rparr>,
                          error_message = m\<rparr>) = ''Email taken'' \<and>
   errorMessage (Object \<lparr>response = Some \<lparr>data = Some \<lparr>message = None, error = Some ''x''\<rparr>\<rparr>,
                          error_message = m\<rparr>) = ''x'' \<and>
   errorMessage (Object \<lparr>response = None, error_message = Some ''Network Error''\<rparr>) =
     ''Network Error'' \<and>
   errorMessage (Object \<lparr>response = Some \<lparr>data = Some \<lparr>message = None, error = None\<rparr>\<rparr>,
                          error_message = None\<rparr>) = ''Signup failed.''"
proof -
  have "i < length (inflight s) \<and> toast_error_throws f = None \<longrightarrow>
      trace (step (Settle i (Rejected err) f) s) =
        trace s @ [(clock s, Toast Failure (errorMessage err) 2200)]"
    by (simp add: settle_rejected)
  moreover have "errorMessage (Object \<lparr>response = Some \<lparr>data = Some \<lparr>message = Some ''Email taken'', error = e\<rparr>\<rparr>,
                          error_message = m\<rparr>) = ''Email taken''"
    by (simp add: errorMessage_def js_or_def or_literal_def response_data_message_def)
  moreover have "errorMessage (Object \<lparr>response = Some \<lparr>data = Some \<lparr>message = None, error = Some ''x''\<rparr>\<rparr>,
                          error_message = m\<rparr>) = ''x''"
    by (simp add: errorMessage_def js_or_def or_literal_def response_data_message_def
        response_data_error_def)
  moreover have "errorMessage (Object \<lparr>response = None, error_message = Some ''Network Error''\<rparr>) =
     ''Network Error''"
    by (simp add: errorMessage_def js_or_def or_literal_def response_data_message_def
        response_data_error_def)
  moreover have "errorMessage (Object \<lparr>response = Some \<lparr>data = Some \<lparr>message = None, error = None\<rparr>\<rparr>,
                          error_message = None\<rparr>) = ''Signup failed.''"
    by (simp add: errorMessage_def js_or_def or_literal_def response_data_message_def
        response_data_error_def)
  ultimately show ?thesis
    using errorMessage_fallback [of err] by blast
qed

theorem error_message_fallback_order_witness:
  "0 < length (inflight (step (ClickSubmit \<lparr>name = ''Al'', email = ''a@b.com'', password = ''secret1''\<rparr>) init)) \<and>
   toast_error_throws no_faults = None \<and>
   trace (step (Settle 0
            (Rejected (Object \<lparr>response = Some \<lparr>data = Some \<lparr>message = Some ''Email taken'', error = None\<rparr>\<rparr>,
                               error_message = Some ''Request failed with status code 409''\<rparr>))
            no_faults)
          (step (ClickSubmit \<lparr>name = ''Al'', email = ''a@b.com'', password = ''secret1''\<rparr>) init)) =
     [(0, Post ''/auth/signup'' \<lparr>name = ''Al'', email = ''a@b.com'', password = ''secret1''\<rparr>),
      (0, Toast Failure ''Email taken'' 2200)]"
proof -
  let ?s = "step (ClickSubmit \<lparr>name = ''Al'', email = ''a@b.com'', password = ''secret1''\<rparr>) init"
  let ?err = "Object \<lparr>response = Some \<lparr>data = Some \<lparr>message = Some ''Email taken'', error = None\<rparr>\<rparr>,
                       error_message = Some ''Request failed with status code 409''\<rparr>"
  have h: "0 < length (inflight ?s)" "toast_error_throws no_faults = None"
    by code_simp+
  have t: "trace ?s = [(0, Post ''/auth/signup'' \<lparr>name = ''Al'', email = ''a@b.com'', password = ''secret1''\<rparr>)]"
    "clock ?s = 0"
    by code_simp+
  from error_message_fallback_order [of ?err 0 ?s no_faults None "Some ''Request failed with status code 409''"] h
  have "trace (step (Settle 0 (Rejected ?err) no_faults) ?s) =
          trace ?s @ [(clock ?s, Toast Failure ''Email taken'' 2200)]"
    by metis
  with h t show ?thesis by (simp del: step.simps)
qed

text \<open>
  C4. On a mounted page, the continuation of \<open>onSubmit\<close> leaves \<open>loading\<close> false on
  every path: the request fulfilled or rejected, the toast library returning or
  throwing, the continuation completing normally or abruptly. So for every valid input
  whose submit goes through, \<open>loading\<close> is true while the request is outstanding and
  false once it has settled.
\<close>

theorem loading_cleared_on_every_exit:
  assumes "mounted s"
  shows "\<not> loading (fst (onSubmit_resume f r s)) \<and>
         (i < length (inflight s) \<longrightarrow> \<not> loading (step (Settle i r f) s)) \<and>
         (\<not> submit_disabled s \<and> checkValidity (field_values t) \<and>
          SignupSchema (field_values t) = [] \<longrightarrow>
            loading (step (ClickSubmit t) s) \<and>
            \<not> loading (step (Settle (length (inflight s)) r f) (step (ClickSubmit t) s)))"
proof -
  have 1: "\<not> loading (fst (onSubmit_resume f r s))"
    using assms by (rule resume_loading)
  have 2: "i < length (inflight s) \<longrightarrow> \<not> loading (step (Settle i r f) s)"
    using assms by (simp add: settle_loading)
  have 3: "loading (step (ClickSubmit t) s) \<and>
           \<not> loading (step (Settle (length (inflight s)) r f) (step (ClickSubmit t) s))"
    if enabled: "\<not> submit_disabled s" and ok: "checkValidity (field_values t)"
      and valid: "SignupSchema (field_values t) = []"
  proof -
    let ?s = "step (ClickSubmit t) s"
    from assms enabled ok valid have m: "mounted ?s" and l: "loading ?s"
      and n: "length (inflight s) < length (inflight ?s)"
      by (simp_all add: click_valid del: step.simps)
    from m n have "\<not> loading (settle (length (inflight s)) r f ?s)"
      by (rule settle_loading)
    with l show ?thesis by simp
  qed
  from 1 2 3 show ?thesis by blast
qed

theorem loading_cleared_on_every_exit_witness:
  "mounted init \<and> \<not> submit_disabled init \<and>
   checkValidity (field_values \<lparr>name = ''Al'', email = ''a@b.com'', password = ''secret1''\<rparr>) \<and>
   SignupSchema (field_values \<lparr>name = ''Al'', email = ''a@b.com'', password = ''secret1''\<rparr>) = [] \<and>
   loading (step (ClickSubmit \<lparr>name = ''Al'', email = ''a@b.com'', password = ''secret1''\<rparr>) init) \<and>
   \<not> loading (step (Settle 0 (Rejected Nullish)
                       \<lparr>toast_success_throws = None, toast_error_throws = Some Nullish\<rparr>)
                 (step (ClickSubmit \<lparr>name = ''Al'', email = ''a@b.com'', password = ''secret1''\<rparr>) init)) \<and>
   0 < length (inflight (step (ClickSubmit \<lparr>name = ''Al'', email = ''a@b.com'', password = ''secret1''\<rparr>) init)) \<and>
   \<not> loading (step (Settle 0 Fulfilled
                       \<lparr>toast_success_throws = Some Nullish, toast_error_throws = None\<rparr>)
                 (step (ClickSubmit \<lparr>name = ''Al'', email = ''a@b.com'', password = ''secret1''\<rparr>) init))"
proof -
  let ?d = "\<lparr>name = ''Al'', email = ''a@b.com'', password = ''secret1''\<rparr>"
  let ?s = "step (ClickSubmit ?d) init"
  have m: "mounted init" by (simp add: init_def)
  have h: "\<not> submit_disabled init" "checkValidity (field_values ?d)"
    "SignupSchema (field_values ?d) = []" "length (inflight init) = 0"
    by code_simp+
  have m': "mounted ?s" and n: "0 < length (inflight ?s)"
    by code_simp+
  from loading_cleared_on_every_exit [OF m,
      of "\<lparr>toast_success_throws = None, toast_error_throws = Some Nullish\<rparr>" "Rejected Nullish" 0 ?d] m h
  have a: "loading ?s \<and>
     \<not> loading (step (Settle 0 (Rejected Nullish)
                  \<lparr>toast_success_throws = None, toast_error_throws = Some Nullish\<rparr>) ?s)"
    by (simp del: step.simps)
  from loading_cleared_on_every_exit [OF m',
      of "\<lparr>toast_success_throws = Some Nullish, toast_error_throws = None\<rparr>" Fulfilled 0] n
  have b: "\<not> loading (step (Settle 0 Fulfilled
                  \<lparr>toast_success_throws = Some Nullish, toast_error_throws = None\<rparr>) ?s)"
    by blast
  from m h a b n show ?thesis by blast
qed

text \<open>
  What the disabled button achieves: in a run whose every event is followed by a render,
  at most one request is outstanding, \<open>loading\<close> holds exactly while one is (on the
  mounted page), and a submit on the disabled button changes nothing.
\<close>

lemma single_flight_when_rendered:
  "length (inflight (run_rendered es init)) \<le> 1 \<and>
   (inflight (run_rendered es init) \<noteq> [] \<longrightarrow> loading (run_rendered es init)) \<and>
   (mounted (run_rendered es init) \<and> loading (run_rendered es init) \<longrightarrow>
      inflight (run_rendered es init) \<noteq> []) \<and>
   (submit_disabled s \<longrightarrow> step (ClickSubmit t) s = s)"
proof -
  have "single_flight (run_rendered es init)"
    using single_flight_init by (rule single_flight_run_rendered)
  then show ?thesis
    by (simp add: single_flight_def click_blocked del: step.simps)
qed


text \<open>
  C6. A submit with an input whose field values fail validation sends no request and
  leaves \<open>loading\<close> as it was (false on an idle page); \<open>handleSubmit\<close> stores the issues,
  and so does the submit when the page is mounted, the button enabled and the browser
  lets the form through. A name shorter than 2 always fails, with the name message.
  Conversely, an event that sends a request is a submit, on a mounted page with the
  button enabled, of an input whose field values pass validation.
\<close>

theorem invalid_input_sends_nothing:
  "(SignupSchema (field_values t) \<noteq> [] \<longrightarrow>
      trace (step (ClickSubmit t) s) = trace s \<and>
      inflight (step (ClickSubmit t) s) = inflight s \<and>
      loading (step (ClickSubmit t) s) = loading s \<and>
      handleSubmit (field_values t) s = s\<lparr>errors := SignupSchema (field_values t)\<rparr> \<and>
      (mounted s \<and> \<not> submit_disabled s \<and> checkValidity (field_values t) \<longrightarrow>
         errors (step (ClickSubmit t) s) = SignupSchema (field_values t))) \<and>
   (length (name d) < 2 \<longrightarrow>
      SignupSchema d \<noteq> [] \<and> zodResolver d Name = Some ''Name must be at least 2 characters'') \<and>
   (count_effects is_post (trace (step ev s)) \<noteq> count_effects is_post (trace s) \<longrightarrow>
      (\<exists>t'. ev = ClickSubmit t' \<and> SignupSchema (field_values t') = [] \<and>
            checkValidity (field_values t') \<and> mounted s \<and> \<not> submit_disabled s))"
proof -
  have 1: "SignupSchema (field_values t) \<noteq> [] \<longrightarrow>
      trace (step (ClickSubmit t) s) = trace s \<and>
      inflight (step (ClickSubmit t) s) = inflight s \<and>
      loading (step (ClickSubmit t) s) = loading s \<and>
      handleSubmit (field_values t) s = s\<lparr>errors := SignupSchema (field_values t)\<rparr> \<and>
      (mounted s \<and> \<not> submit_disabled s \<and> checkValidity (field_values t) \<longrightarrow>
         errors (step (ClickSubmit t) s) = SignupSchema (field_values t))"
    by (simp add: click_invalid handleSubmit_invalid del: step.simps)
  have 2: "length (name d) < 2 \<longrightarrow>
      SignupSchema d \<noteq> [] \<and> zodResolver d Name = Some ''Name must be at least 2 characters''"
    by (simp add: schema_valid_iff resolver_name)
  have 3: "count_effects is_post (trace (step ev s)) \<noteq> count_effects is_post (trace s) \<longrightarrow>
      (\<exists>t'. ev = ClickSubmit t' \<and> SignupSchema (field_values t') = [] \<and>
            checkValidity (field_values t') \<and> mounted s \<and> \<not> submit_disabled s)"
    using post_only_valid [of ev s] by blast
  from 1 2 3 show ?thesis by blast
qed

theorem invalid_input_sends_nothing_witness:
  "length (name (field_values \<lparr>name = ''A'', email = ''a@b.com'', password = ''secret1''\<rparr>)) < 2 \<and>
   SignupSchema (field_values \<lparr>name = ''A'', email = ''a@b.com'', password = ''secret1''\<rparr>) \<noteq> [] \<and>
   mounted init \<and> \<not> submit_disabled init \<and>
   checkValidity (field_values \<lparr>name = ''A'', email = ''a@b.com'', password = ''secret1''\<rparr>) \<and>
   trace (step (ClickSubmit \<lparr>name = ''A'', email = ''a@b.com'', password = ''secret1''\<rparr>) init) = [] \<and>
   inflight (step (ClickSubmit \<lparr>name = ''A'', email = ''a@b.com'', password = ''secret1''\<rparr>) init) = [] \<and>
   \<not> loading (step (ClickSubmit \<lparr>name = ''A'', email = ''a@b.com'', password = ''secret1''\<rparr>) init) \<and>
   errors (step (ClickSubmit \<lparr>name = ''A'', email = ''a@b.com'', password = ''secret1''\<rparr>) init) =
     [(Name, ''Name must be at least 2 characters'')] \<and>
   count_effects is_post
     (trace (step (ClickSubmit \<lparr>name = ''Al'', email = ''a@b.com'', password = ''secret1''\<rparr>) init)) \<noteq>
   count_effects is_post (trace init) \<and>
   SignupSchema (field_values \<lparr>name = ''Al'', email = ''a@b.com'', password = ''secret1''\<rparr>) = []"
proof -
  let ?d = "\<lparr>name = ''A'', email = ''a@b.com'', password = ''secret1''\<rparr>"
  let ?v = "\<lparr>name = ''Al'', email = ''a@b.com'', password = ''secret1''\<rparr>"
  have h: "length (name (field_values ?d)) < 2" by code_simp
  have v: "SignupSchema (field_values ?d) = [(Name, ''Name must be at least 2 characters'')]"
    by code_simp
  have k: "checkValidity (field_values ?d)" by code_simp
  have i: "mounted init" "\<not> submit_disabled init" "\<not> loading init" "trace init = []"
    "inflight init = []"
    by (simp_all add: init_def)
  have c: "count_effects is_post (trace (step (ClickSubmit ?v) init)) \<noteq>
           count_effects is_post (trace init)"
    by code_simp
  from invalid_input_sends_nothing [of ?d init] h v k i
  have a: "trace (step (ClickSubmit ?d) init) = [] \<and> inflight (step (ClickSubmit ?d) init) = [] \<and>
      \<not> loading (step (ClickSubmit ?d) init) \<and>
      errors (step (ClickSubmit ?d) init) = [(Name, ''Name must be at least 2 characters'')]"
    by (simp del: step.simps)
  from invalid_input_sends_nothing [of ?d init _ "ClickSubmit ?v"] c
  have "\<exists>t'. ClickSubmit ?v = ClickSubmit t' \<and> SignupSchema (field_values t') = []"
    by blast
  then have b: "SignupSchema (field_values ?v) = []" by auto
  from h v k i a b c show ?thesis by simp
qed

text \<open>
  C7. When a request is fulfilled (and the toast library does not fail), the
  continuation emits exactly one success toast and schedules exactly one navigation to
  \<open>/dashboard\<close>, due 900 ms later; a rejected request schedules no navigation and emits
  no success toast. Only the passing of time performs a navigation. The navigation is
  performed: once 900 ms or more have passed after the fulfilled request, the trace
  holds the navigation to \<open>/dashboard\<close>; and from the start of a mount, after any
  sequence of events, every success toast that is 900 ms old or older has its
  navigation done, at least 900 ms after it. After any sequence of events the success
  toasts are as many as the navigations done and pending together, and every navigation
  done leads to \<open>/dashboard\<close> and happened at least 900 ms after a success toast.
\<close>

theorem navigation_once_after_success:
  "(i < length (inflight s) \<and> toast_success_throws f = None \<longrightarrow>
      trace (step (Settle i Fulfilled f) s) = trace s @ [(clock s, success_toast)] \<and>
      timers (step (Settle i Fulfilled f) s) = timers s @ [(clock s + 900, ''/dashboard'')]) \<and>
   (i < length (inflight s) \<and> toast_success_throws f = None \<and> 900 \<le> dt \<longrightarrow>
      (clock s + dt, Navigate ''/dashboard'') \<in>
        set (trace (step (Tick dt) (step (Settle i Fulfilled f) s)))) \<and>
   (i < length (inflight s) \<longrightarrow>
      timers (step (Settle i (Rejected err) f) s) = timers s \<and>
      count_effects is_success (trace (step (Settle i (Rejected err) f) s)) =
        count_effects is_success (trace s)) \<and>
   (count_effects is_navigate (trace (step ev s)) \<noteq> count_effects is_navigate (trace s) \<longrightarrow>
      (\<exists>dt. ev = Tick dt)) \<and>
   count_effects is_success (trace (run es init)) =
     count_effects is_navigate (trace (run es init)) + length (timers (run es init)) \<and>
   (\<forall>(t, e) \<in> set (trace (run es init)). \<forall>route. e = Navigate route \<longrightarrow>
      route = ''/dashboard'' \<and>
      (\<exists>t0. t0 + 900 \<le> t \<and> (t0, success_toast) \<in> set (trace (run es init)))) \<and>
   (\<forall>(t0, e) \<in> set (trace (run es init)).
      e = success_toast \<and> t0 + 900 \<le> clock (run es init) \<longrightarrow>
      (\<exists>t. t0 + 900 \<le> t \<and> (t, Navigate ''/dashboard'') \<in> set (trace (run es init))))"
proof -
  have 1: "i < length (inflight s) \<and> toast_success_throws f = None \<longrightarrow>
      trace (step (Settle i Fulfilled f) s) = trace s @ [(clock s, success_toast)] \<and>
      timers (step (Settle i Fulfilled f) s) = timers s @ [(clock s + 900, ''/dashboard'')]"
    by (simp add: settle_fulfilled)
  have 2: "i < length (inflight s) \<longrightarrow>
      timers (step (Settle i (Rejected err) f) s) = timers s \<and>
      count_effects is_success (trace (step (Settle i (Rejected err) f) s)) =
        count_effects is_success (trace s)"
    by (cases "toast_error_throws f") (simp_all add: settle_rejected)
  have 3: "count_effects is_navigate (trace (step ev s)) \<noteq> count_effects is_navigate (trace s) \<longrightarrow>
      (\<exists>dt. ev = Tick dt)"
    using navigate_only_tick [of ev s] by blast
  have inv: "navigation_inv (run es init)"
    using navigation_inv_init by (rule navigation_inv_run)
  then have 4: "count_effects is_success (trace (run es init)) =
     count_effects is_navigate (trace (run es init)) + length (timers (run es init))"
    and 5: "\<forall>(t, e) \<in> set (trace (run es init)). \<forall>route. e = Navigate route \<longrightarrow>
      route = ''/dashboard'' \<and>
      (\<exists>t0. t0 + 900 \<le> t \<and> (t0, success_toast) \<in> set (trace (run es init)))"
    by (simp_all add: navigation_inv_def)
  have 6: "i < length (inflight s) \<and> toast_success_throws f = None \<and> 900 \<le> dt \<longrightarrow>
      (clock s + dt, Navigate ''/dashboard'') \<in>
        set (trace (step (Tick dt) (step (Settle i Fulfilled f) s)))"
    using settle_then_tick_navigates [of i s f dt] by blast
  have 7: "\<forall>(t0, e) \<in> set (trace (run es init)).
      e = success_toast \<and> t0 + 900 \<le> clock (run es init) \<longrightarrow>
      (\<exists>t. t0 + 900 \<le> t \<and> (t, Navigate ''/dashboard'') \<in> set (trace (run es init)))"
    using navigation_performed [OF inv] by blast
  from 1 2 3 4 5 6 7 show ?thesis by blast
qed

theorem navigation_once_after_success_witness:
  "0 < length (inflight (run [ClickSubmit \<lparr>name = ''Al'', email = ''a@b.com'', password = ''secret1''\<rparr>, Tick 250] init)) \<and>
   toast_success_throws no_faults = None \<and>
   timers (run [ClickSubmit \<lparr>name = ''Al'', email = ''a@b.com'', password = ''secret1''\<rparr>,
                Tick 250, Settle 0 Fulfilled no_faults] init) = [(1150, ''/dashboard'')] \<and>
   (1150, Navigate ''/dashboard'') \<in>
     set (trace (run [ClickSubmit \<lparr>name = ''Al'', email = ''a@b.com'', password = ''secret1''\<rparr>,
                      Tick 250, Settle 0 Fulfilled no_faults, Tick 900] init)) \<and>
   timers (run [ClickSubmit \<lparr>name = ''Al'', email = ''a@b.com'', password = ''secret1''\<rparr>,
                Tick 250, Settle 0 (Rejected Nullish) no_faults] init) = [] \<and>
   trace (run [ClickSubmit \<lparr>name = ''Al'', email = ''a@b.com'', password = ''secret1''\<rparr>,
               Tick 250, Settle 0 Fulfilled no_faults, Tick 899, Tick 1] init) =
     [(0, Post ''/auth/signup'' \<lparr>name = ''Al'', email = ''a@b.com'', password = ''secret1''\<rparr>),
      (250, success_toast), (1150, Navigate ''/dashboard'')] \<and>
   (\<exists>t0. t0 + 900 \<le> 1150 \<and>
      (t0, success_toast) \<in> set (trace (run [ClickSubmit \<lparr>name = ''Al'', email = ''a@b.com'', password = ''secret1''\<rparr>,
               Tick 250, Settle 0 Fulfilled no_faults, Tick 899, Tick 1] init))) \<and>
   250 + 900 \<le> clock (run [ClickSubmit \<lparr>name = ''Al'', email = ''a@b.com'', password = ''secret1''\<rparr>,
               Tick 250, Settle 0 Fulfilled no_faults, Tick 899, Tick 1] init) \<and>
   (\<exists>t. 250 + 900 \<le> t \<and>
      (t, Navigate ''/dashboard'') \<in> set (trace (run [ClickSubmit \<lparr>name = ''Al'', email = ''a@b.com'', password = ''secret1''\<rparr>,
               Tick 250, Settle 0 Fulfilled no_faults, Tick 899, Tick 1] init)))"
proof -
  let ?d = "\<lparr>name = ''Al'', email = ''a@b.com'', password = ''secret1''\<rparr>"
  let ?s = "run [ClickSubmit ?d, Tick 250] init"
  let ?es = "[ClickSubmit ?d, Tick 250, Settle 0 Fulfilled no_faults, Tick 899, Tick 1]"
  have h: "0 < length (inflight ?s)" "toast_success_throws no_faults = None"
    by code_simp+
  have s: "timers ?s = []" "clock ?s = 250" by code_simp+
  have r: "run [ClickSubmit ?d, Tick 250, Settle 0 Fulfilled no_faults] init =
           step (Settle 0 Fulfilled no_faults) ?s"
    "run [ClickSubmit ?d, Tick 250, Settle 0 (Rejected Nullish) no_faults] init =
           step (Settle 0 (Rejected Nullish) no_faults) ?s"
    "run [ClickSubmit ?d, Tick 250, Settle 0 Fulfilled no_faults, Tick 900] init =
           step (Tick 900) (step (Settle 0 Fulfilled no_faults) ?s)"
    by simp_all
  have t: "trace (run ?es init) =
     [(0, Post ''/auth/signup'' ?d), (250, success_toast), (1150, Navigate ''/dashboard'')]"
    by code_simp
  have k: "250 + 900 \<le> clock (run ?es init)" by code_simp
  note inst = navigation_once_after_success [of 0 ?s no_faults 900 Nullish _ ?es]
  from inst h s have a: "timers (step (Settle 0 Fulfilled no_faults) ?s) = [(1150, ''/dashboard'')]"
    by (simp del: step.simps run.simps)
  from inst h s have c: "timers (step (Settle 0 (Rejected Nullish) no_faults) ?s) = []"
    by (simp del: step.simps run.simps)
  from inst h s have l: "(1150, Navigate ''/dashboard'') \<in>
      set (trace (step (Tick 900) (step (Settle 0 Fulfilled no_faults) ?s)))"
    by (simp del: step.simps run.simps)
  from inst have "\<forall>(t, e) \<in> set (trace (run ?es init)). \<forall>route. e = Navigate route \<longrightarrow>
      route = ''/dashboard'' \<and>
      (\<exists>t0. t0 + 900 \<le> t \<and> (t0, success_toast) \<in> set (trace (run ?es init)))"
    by blast
  moreover have "(1150, Navigate ''/dashboard'') \<in> set (trace (run ?es init))"
    unfolding t by simp
  ultimately have b: "\<exists>t0. t0 + 900 \<le> 1150 \<and> (t0, success_toast) \<in> set (trace (run ?es init))"
    by blast
  from inst have "\<forall>(t0, e) \<in> set (trace (run ?es init)).
      e = success_toast \<and> t0 + 900 \<le> clock (run ?es init) \<longrightarrow>
      (\<exists>t. t0 + 900 \<le> t \<and> (t, Navigate ''/dashboard'') \<in> set (trace (run ?es init)))"
    by blast
  moreover have "(250, success_toast) \<in> set (trace (run ?es init))"
    unfolding t by simp
  ultimately have p: "\<exists>t. 250 + 900 \<le> t \<and> (t, Navigate ''/dashboard'') \<in> set (trace (run ?es init))"
    using k by blast
  from h a b c l k p t show ?thesis
    unfolding r by blast
qed

text \<open>
  C8, as the code has it. After the page is torn down no event changes the state of the
  component (\<open>loading\<close>, \<open>errors\<close>), since the framework drops the updates. The source has
  no guard of its own, so the continuations still run: an outstanding request
  that is fulfilled still emits its success toast and schedules the navigation, and a
  timer that is due still navigates.
\<close>

theorem teardown_state_kept_effects_run:
  assumes "\<not> mounted s"
  shows "loading (step ev s) = loading s \<and> errors (step ev s) = errors s \<and>
         \<not> mounted (step ev s) \<and>
         (i < length (inflight s) \<longrightarrow>
            trace (step (Settle i Fulfilled no_faults) s) = trace s @ [(clock s, success_toast)] \<and>
            timers (step (Settle i Fulfilled no_faults) s) =
              timers s @ [(clock s + 900, ''/dashboard'')]) \<and>
         ((due, route) \<in> set (timers s) \<and> due \<le> clock s + dt \<longrightarrow>
            (clock s + dt, Navigate route) \<in> set (trace (step (Tick dt) s)))"
proof -
  have "toast_success_throws no_faults = None" by (simp add: no_faults_def)
  then have "i < length (inflight s) \<longrightarrow>
            trace (step (Settle i Fulfilled no_faults) s) = trace s @ [(clock s, success_toast)] \<and>
            timers (step (Settle i Fulfilled no_faults) s) =
              timers s @ [(clock s + 900, ''/dashboard'')]"
    by (simp add: settle_fulfilled)
  moreover have "(due, route) \<in> set (timers s) \<and> due \<le> clock s + dt \<longrightarrow>
            (clock s + dt, Navigate route) \<in> set (trace (step (Tick dt) s))"
    using due_timer_fires [of due route s dt] by blast
  ultimately show ?thesis
    using unmounted_component_state [OF assms, of ev] by blast
qed

theorem teardown_state_kept_effects_run_witness:
  "\<not> mounted (run [ClickSubmit \<lparr>name = ''Al'', email = ''a@b.com'', password = ''secret1''\<rparr>, Unmount] init) \<and>
   0 < length (inflight (run [ClickSubmit \<lparr>name = ''Al'', email = ''a@b.com'', password = ''secret1''\<rparr>, Unmount] init)) \<and>
   loading (step (Settle 0 Fulfilled no_faults)
     (run [ClickSubmit \<lparr>name = ''Al'', email = ''a@b.com'', password = ''secret1''\<rparr>, Unmount] init)) \<and>
   timers (step (Settle 0 Fulfilled no_faults)
     (run [ClickSubmit \<lparr>name = ''Al'', email = ''a@b.com'', password = ''secret1''\<rparr>, Unmount] init)) =
     [(900, ''/dashboard'')] \<and>
   \<not> mounted (run [ClickSubmit \<lparr>name = ''Al'', email = ''a@b.com'', password = ''secret1''\<rparr>, Unmount,
                    Settle 0 Fulfilled no_faults] init) \<and>
   (900, Navigate ''/dashboard'') \<in>
     set (trace (step (Tick 900)
       (run [ClickSubmit \<lparr>name = ''Al'', email = ''a@b.com'', password = ''secret1''\<rparr>, Unmount,
             Settle 0 Fulfilled no_faults] init)))"
proof -
  let ?d = "\<lparr>name = ''Al'', email = ''a@b.com'', password = ''secret1''\<rparr>"
  let ?s = "run [ClickSubmit ?d, Unmount] init"
  let ?s' = "run [ClickSubmit ?d, Unmount, Settle 0 Fulfilled no_faults] init"
  have h: "\<not> mounted ?s" and h': "\<not> mounted ?s'" by code_simp+
  have i: "0 < length (inflight ?s)" "loading ?s" "timers ?s = []" "clock ?s = 0"
    by code_simp+
  have j: "(900, ''/dashboard'') \<in> set (timers ?s')" "clock ?s' = 0"
    by code_simp+
  from teardown_state_kept_effects_run [OF h, of "Settle 0 Fulfilled no_faults" 0] h i
  have a: "loading (step (Settle 0 Fulfilled no_faults) ?s) \<and>
           timers (step (Settle 0 Fulfilled no_faults) ?s) = [(900, ''/dashboard'')]"
    by (simp del: step.simps run.simps)
  from teardown_state_kept_effects_run [OF h', of _ _ 900 "''/dashboard''" 900] j
  have b: "(900, Navigate ''/dashboard'') \<in> set (trace (step (Tick 900) ?s'))"
    by (simp del: step.simps run.simps)
  from h h' i a b show ?thesis by blast
qed

text \<open>
  The claim as stated fails: a valid input is submitted, the page is torn down while
  the request is outstanding, the request is fulfilled and 900 ms pass. The success
  toast and the navigation both happen after the teardown.
\<close>

theorem continuation_runs_after_unmount:
  "\<not> mounted (run [ClickSubmit \<lparr>name = ''Al'', email = ''a@b.com'', password = ''secret1''\<rparr>, Unmount] init) \<and>
   trace (run [ClickSubmit \<lparr>name = ''Al'', email = ''a@b.com'', password = ''secret1''\<rparr>, Unmount] init) =
     [(0, Post ''/auth/signup'' \<lparr>name = ''Al'', email = ''a@b.com'', password = ''secret1''\<rparr>)] \<and>
   trace (run [ClickSubmit \<lparr>name = ''Al'', email = ''a@b.com'', password = ''secret1''\<rparr>, Unmount,
               Settle 0 Fulfilled no_faults, Tick 900] init) =
     [(0, Post ''/auth/signup'' \<lparr>name = ''Al'', email = ''a@b.com'', password = ''secret1''\<rparr>),
      (0, Toast Success ''Signup successful! Redirecting to dashboard...'' 1800),
      (900, Navigate ''/dashboard'')]"
  by code_simp

text \<open>
  C9. Validation reads the values of the fields and the payload is normalized afterwards, so
  a valid input can be sent with a name that breaks the length rule: the name \<open>" A "\<close>
  has length 3 and passes, and the request carries \<open>"A"\<close>, of length 1, which the schema
  itself would reject.
\<close>

theorem validation_precedes_normalization:
  "\<exists>d. SignupSchema d = [] \<and> name d = '' A '' \<and> length (name d) = 3 \<and>
       name (payload_of d) = ''A'' \<and> length (name (payload_of d)) < 2 \<and>
       SignupSchema (payload_of d) = [(Name, ''Name must be at least 2 characters'')] \<and>
       trace (step (ClickSubmit d) init) = [(0, Post ''/auth/signup'' (payload_of d))] \<and>
       field_values d = d"
proof -
  have "SignupSchema \<lparr>name = '' A '', email = ''a@b.co'', password = ''secret''\<rparr> = [] \<and>
        name \<lparr>name = '' A '', email = ''a@b.co'', password = ''secret''\<rparr> = '' A '' \<and>
        length (name \<lparr>name = '' A '', email = ''a@b.co'', password = ''secret''\<rparr>) = 3 \<and>
        name (payload_of \<lparr>name = '' A '', email = ''a@b.co'', password = ''secret''\<rparr>) = ''A'' \<and>
        length (name (payload_of \<lparr>name = '' A '', email = ''a@b.co'', password = ''secret''\<rparr>)) < 2 \<and>
        SignupSchema (payload_of \<lparr>name = '' A '', email = ''a@b.co'', password = ''secret''\<rparr>) =
          [(Name, ''Name must be at least 2 characters'')] \<and>
        trace (step (ClickSubmit \<lparr>name = '' A '', email = ''a@b.co'', password = ''secret''\<rparr>) init) =
          [(0, Post ''/auth/signup'' (payload_of \<lparr>name = '' A '', email = ''a@b.co'', password = ''secret''\<rparr>))] \<and>
        field_values \<lparr>name = '' A '', email = ''a@b.co'', password = ''secret''\<rparr> =
          \<lparr>name = '' A '', email = ''a@b.co'', password = ''secret''\<rparr>"
    by code_simp
  then show ?thesis by blast
qed

text \<open>
  C10. A candidate of the fallback chain that is present but empty is skipped: the text
  is chosen among the other candidates and the default, in their order, and it is never
  the empty string.
\<close>

theorem empty_candidate_skipped:
  "errorMessage err \<noteq> [] \<and>
   (response_data_message err = Some [] \<longrightarrow>
      errorMessage err =
        fallback_chain [response_data_error err, err_message err] ''Signup failed.'') \<and>
   (response_data_error err = Some [] \<longrightarrow>
      errorMessage err =
        fallback_chain [response_data_message err, err_message err] ''Signup failed.'') \<and>
   (err_message err = Some [] \<longrightarrow>
      errorMessage err =
        fallback_chain [response_data_message err, response_data_error err] ''Signup failed.'')"
  using errorMessage_nonempty [of err] errorMessage_fallback [of err]
  by (auto simp: fallback_chain_def)

theorem empty_candidate_skipped_witness:
  "response_data_message
     (Object \<lparr>response = Some \<lparr>data = Some \<lparr>message = Some [], error = Some ''x''\<rparr>\<rparr>,
              error_message = Some ''Request failed''\<rparr>) = Some [] \<and>
   errorMessage
     (Object \<lparr>response = Some \<lparr>data = Some \<lparr>message = Some [], error = Some ''x''\<rparr>\<rparr>,
              error_message = Some ''Request failed''\<rparr>) = ''x'' \<and>
   response_data_error
     (Object \<lparr>response = Some \<lparr>data = Some \<lparr>message = None, error = Some []\<rparr>\<rparr>,
              error_message = Some ''Request failed''\<rparr>) = Some [] \<and>
   errorMessage
     (Object \<lparr>response = Some \<lparr>data = Some \<lparr>message = None, error = Some []\<rparr>\<rparr>,
              error_message = Some ''Request failed''\<rparr>) = ''Request failed'' \<and>
   err_message (Object \<lparr>response = None, error_message = Some []\<rparr>) = Some [] \<and>
   errorMessage (Object \<lparr>response = None, error_message = Some []\<rparr>) = ''Signup failed.''"
proof -
  let ?e1 = "Object \<lparr>response = Some \<lparr>data = Some \<lparr>message = Some [], error = Some ''x''\<rparr>\<rparr>,
              error_message = Some ''Request failed''\<rparr>"
  let ?e2 = "Object \<lparr>response = Some \<lparr>data = Some \<lparr>message = None, error = Some []\<rparr>\<rparr>,
              error_message = Some ''Request failed''\<rparr>"
  let ?e3 = "Object \<lparr>response = None, error_message = Some []\<rparr>"
  have h: "response_data_message ?e1 = Some []" "response_data_error ?e2 = Some []"
    "err_message ?e3 = Some []"
    by (simp_all add: response_data_message_def response_data_error_def)
  have c: "fallback_chain [response_data_error ?e1, err_message ?e1] ''Signup failed.'' = ''x''"
    "fallback_chain [response_data_message ?e2, err_message ?e2] ''Signup failed.'' = ''Request failed''"
    "fallback_chain [response_data_message ?e3, response_data_error ?e3] ''Signup failed.'' = ''Signup failed.''"
    by (simp_all add: fallback_chain_def response_data_message_def response_data_error_def)
  from empty_candidate_skipped [of ?e1] empty_candidate_skipped [of ?e2]
    empty_candidate_skipped [of ?e3] h c
  show ?thesis by simp
qed

end
